theory Spec2Isabelle
  imports Complex_Main "HOL-Library.Multiset"
begin

section \<open>The utilities of ssm/util.py\<close>

text \<open>
  The module is Python over numpy arrays. One-dimensional integer arrays (label
  sequences) are \<open>int list\<close>; a two-dimensional array carries its shape, since numpy
  keeps the number of columns of an array with no rows. Every \<open>assert\<close> and every
  exception numpy raises on the paths modelled here is a value of \<open>py_error\<close>.
\<close>

datatype py_error = AssertionError | ValueError | NameError

record overlap_matrix =
  nrows :: nat
  ncols :: nat
  cells :: "int list list"

subsection \<open>compute_state_overlap\<close>

text \<open>
  \<open>np.sum((z1 == k1) & (z2 == k2))\<close>: the two comparisons are elementwise, \<open>&\<close> is
  elementwise on arrays of the same shape, and the sum counts the positions that hold.
\<close>

definition count_pair :: "int list \<Rightarrow> int list \<Rightarrow> int \<Rightarrow> int \<Rightarrow> int" where
  "count_pair z1 z2 k1 k2 =
     sum_list (map2 (\<lambda>a b. if a = k1 \<and> b = k2 then 1 else 0) z1 z2)"

text \<open>\<open>np.zeros((K1, K2))\<close>, and the two nested loops that store one count per cell.\<close>

definition zeros2 :: "nat \<Rightarrow> nat \<Rightarrow> int list list" where
  "zeros2 r c = replicate r (replicate c 0)"

definition fill_row :: "int list \<Rightarrow> int list \<Rightarrow> nat \<Rightarrow> nat \<Rightarrow> int list \<Rightarrow> int list" where
  "fill_row z1 z2 k1 K2 row =
     fold (\<lambda>k2 r. r[k2 := count_pair z1 z2 (int k1) (int k2)]) [0..<K2] row"

definition fill_overlap :: "int list \<Rightarrow> int list \<Rightarrow> nat \<Rightarrow> nat \<Rightarrow> int list list \<Rightarrow> int list list" where
  "fill_overlap z1 z2 K1 K2 ov =
     fold (\<lambda>k1 m. m[k1 := fill_row z1 z2 k1 K2 (m ! k1)]) [0..<K1] ov"

text \<open>
  The three assertions, in the source's order. The shapes are compared first; then
  \<open>z1.min()\<close> is evaluated, which raises ValueError on an array of size zero (so an
  empty pair of sequences never reaches the comparison with 0); \<open>np.zeros\<close> raises
  ValueError on a negative dimension, which only a supplied \<open>K1\<close> or \<open>K2\<close> can be.
\<close>

definition compute_state_overlap ::
  "int list \<Rightarrow> int list \<Rightarrow> int option \<Rightarrow> int option \<Rightarrow> py_error + overlap_matrix" where
  "compute_state_overlap z1 z2 K1 K2 =
     (if length z1 \<noteq> length z2 then Inl AssertionError
      else if z1 = [] then Inl ValueError
      else if \<not> (0 \<le> Min (set z1) \<and> 0 \<le> Min (set z2)) then Inl AssertionError
      else
        let k1 = (case K1 of None \<Rightarrow> Max (set z1) + 1 | Some k \<Rightarrow> k);
            k2 = (case K2 of None \<Rightarrow> Max (set z2) + 1 | Some k \<Rightarrow> k)
        in if k1 < 0 \<or> k2 < 0 then Inl ValueError
           else Inr \<lparr>nrows = nat k1, ncols = nat k2,
                     cells = fill_overlap z1 z2 (nat k1) (nat k2) (zeros2 (nat k1) (nat k2))\<rparr>)"

text \<open>The sum of all entries of a matrix, \<open>overlap.sum()\<close>.\<close>

definition total :: "overlap_matrix \<Rightarrow> int" where
  "total ov = sum_list (map sum_list (cells ov))"

text \<open>
  The inputs the function accepts: two sequences of one length, not empty, with no
  negative label, and no negative dimension supplied.
\<close>

definition valid_labels :: "int list \<Rightarrow> int list \<Rightarrow> bool" where
  "valid_labels z1 z2 \<longleftrightarrow>
     length z1 = length z2 \<and> z1 \<noteq> [] \<and> list_all (\<lambda>a. 0 \<le> a) z1 \<and> list_all (\<lambda>a. 0 \<le> a) z2"

definition dim_of :: "int list \<Rightarrow> int option \<Rightarrow> int" where
  "dim_of z K = (case K of None \<Rightarrow> Max (set z) + 1 | Some k \<Rightarrow> k)"

text \<open>Whether both labels of a position are below the dimensions, so that it is counted.\<close>

definition in_range :: "nat \<Rightarrow> nat \<Rightarrow> int \<times> int \<Rightarrow> bool" where
  "in_range K1 K2 p \<longleftrightarrow> 0 \<le> fst p \<and> fst p < int K1 \<and> 0 \<le> snd p \<and> snd p < int K2"

subsection \<open>find_permutation\<close>

text \<open>
  \<open>linear_sum_assignment\<close> is scipy's solver, an external library: it is a parameter
  of the model. It is called on \<open>-overlap\<close> and returns the matched row and column
  indices. \<open>list(set(np.arange(K2)) - set(perm))\<close> lists a Python set, whose order the
  language does not fix: it is a parameter too, a function of \<open>K2\<close> and \<open>perm\<close>.
\<close>

type_synonym solver = "overlap_matrix \<Rightarrow> nat list \<times> nat list"

type_synonym set_lister = "nat \<Rightarrow> nat list \<Rightarrow> nat list"

definition negate :: "overlap_matrix \<Rightarrow> overlap_matrix" where
  "negate ov = ov\<lparr>cells := map (map uminus) (cells ov)\<rparr>"

definition find_permutation ::
  "solver \<Rightarrow> set_lister \<Rightarrow> int list \<Rightarrow> int list \<Rightarrow> int option \<Rightarrow> int option
     \<Rightarrow> py_error + nat list" where
  "find_permutation linear_sum_assignment unused_list z1 z2 K1 K2 =
     (case compute_state_overlap z1 z2 K1 K2 of
        Inl e \<Rightarrow> Inl e
      | Inr overlap \<Rightarrow>
          if \<not> nrows overlap \<le> ncols overlap then Inl AssertionError
          else
            let (tmp, perm) = linear_sum_assignment (negate overlap) in
            if tmp \<noteq> [0..<nrows overlap] then Inl AssertionError
            else if nrows overlap < ncols overlap
              then Inr (perm @ unused_list (ncols overlap) perm)
              else Inr perm)"

text \<open>
  Modelled from the spec: the linear assignment solver, whose code (scipy's
  \<open>linear_sum_assignment\<close>) is not among the sources. Section 6 of the specification:
  given a cost matrix, it returns the optimal assignment as matched row and column
  index pairs minimizing the total cost. For a cost matrix with no more rows than
  columns every row is matched, so (as scipy documents) the row indices are
  \<open>0, ..., K1 - 1\<close> in order, the column indices are distinct and below \<open>K2\<close>, and no
  other such choice of columns has a smaller total cost
  \<open>cost_matrix[row_ind, col_ind].sum()\<close>. Ties between optimal assignments are not
  specified.
\<close>

definition is_assignment :: "nat \<Rightarrow> nat \<Rightarrow> nat list \<Rightarrow> bool" where
  "is_assignment r c cols \<longleftrightarrow> length cols = r \<and> distinct cols \<and> list_all (\<lambda>j. j < c) cols"

definition assignment_cost :: "int list list \<Rightarrow> nat list \<Rightarrow> int" where
  "assignment_cost C cols = sum_list (map2 (\<lambda>row j. row ! j) C cols)"

definition solves_assignment :: "solver \<Rightarrow> overlap_matrix \<Rightarrow> bool" where
  "solves_assignment lsa C \<longleftrightarrow>
     (case lsa C of (rows, cols) \<Rightarrow>
        rows = [0..<nrows C] \<and> is_assignment (nrows C) (ncols C) cols \<and>
        (\<forall>cs. is_assignment (nrows C) (ncols C) cs \<longrightarrow>
              assignment_cost (cells C) cols \<le> assignment_cost (cells C) cs))"

text \<open>What listing the set difference promises: each unused column once, in some order.\<close>

definition lists_unused :: "set_lister \<Rightarrow> nat \<Rightarrow> nat list \<Rightarrow> bool" where
  "lists_unused unused_list K2 perm \<longleftrightarrow>
     mset (unused_list K2 perm) = mset (filter (\<lambda>j. j \<notin> set perm) [0..<K2])"

text \<open>
  Two instances of the parameters, for evaluating the model on concrete inputs: a
  solver by exhaustive search over all choices of distinct columns (it keeps the first
  of the cheapest, where scipy may keep another), and the ascending listing of the
  unused columns.
\<close>

fun injections :: "nat \<Rightarrow> nat list \<Rightarrow> nat list list" where
  "injections 0 xs = [[]]"
| "injections (Suc r) xs = concat (map (\<lambda>x. map ((#) x) (injections r (removeAll x xs))) xs)"

definition exhaustive_lsa :: solver where
  "exhaustive_lsa C =
     ([0..<nrows C], arg_min_list (assignment_cost (cells C)) (injections (nrows C) [0..<ncols C]))"

definition ascending_unused :: set_lister where
  "ascending_unused K2 perm = filter (\<lambda>j. j \<notin> set perm) [0..<K2]"

text \<open>The total overlap \<open>sum_k overlap[k][f k]\<close> of an assignment of rows to columns.\<close>

definition total_overlap :: "overlap_matrix \<Rightarrow> (nat \<Rightarrow> nat) \<Rightarrow> int" where
  "total_overlap ov f = (\<Sum>k<nrows ov. cells ov ! k ! f k)"

subsection \<open>adam_with_convergence_check\<close>

text \<open>
  The optimizer works on flat one-dimensional arrays (the decorator
  \<open>unflatten_optimizer\<close> of autograd flattens its arguments and is not part of the
  repository). Floating-point numbers are modelled as real numbers: rounding, overflow,
  infinities and NaN are outside the model, and the theorems below are about the
  recurrence, not about rounding errors.

  The signature of the function is
  \<open>(grad, x, callback=None, step_size=0.001, b1=0.9, b2=0.999, eps=10**-8, tol=1e-2)\<close>.
  The body reads \<open>num_iters\<close>, which is neither a parameter nor a local variable, so
  Python looks it up among the globals of the module when \<open>range(num_iters)\<close> is
  evaluated. The model takes the integer-valued globals as an argument; \<open>util_globals\<close>
  are those of util.py itself, which binds only modules and functions.
\<close>

type_synonym vec = "real list"

type_synonym globals = "string \<Rightarrow> int option"

definition util_globals :: globals where
  "util_globals = Map.empty"

text \<open>
  numpy's elementwise binary operations on one-dimensional arrays: equal lengths pair
  up, an array of length one is broadcast, any other pair of lengths raises ValueError.
\<close>

definition broadcast2 :: "(real \<Rightarrow> real \<Rightarrow> real) \<Rightarrow> vec \<Rightarrow> vec \<Rightarrow> py_error + vec" where
  "broadcast2 f a b =
     (if length a = length b then Inr (map2 f a b)
      else if length a = 1 then Inr (map (f (hd a)) b)
      else if length b = 1 then Inr (map (\<lambda>y. f y (hd b)) a)
      else Inl ValueError)"

text \<open>
  Lines 20 to 25, one statement each: the two moving averages, the bias correction (used
  for \<open>mhat\<close> and for \<open>vhat\<close>), and the step \<open>dx\<close>.
\<close>

definition first_moment :: "real \<Rightarrow> vec \<Rightarrow> vec \<Rightarrow> py_error + vec" where
  "first_moment b1 g m = broadcast2 (+) (map ((*) (1 - b1)) g) (map ((*) b1) m)"

definition second_moment :: "real \<Rightarrow> vec \<Rightarrow> vec \<Rightarrow> py_error + vec" where
  "second_moment b2 g v = broadcast2 (+) (map ((*) (1 - b2)) (map (\<lambda>y. y ^ 2) g)) (map ((*) b2) v)"

definition bias_correct :: "real \<Rightarrow> nat \<Rightarrow> vec \<Rightarrow> vec" where
  "bias_correct b i m = map (\<lambda>y. y / (1 - b ^ (i + 1))) m"

definition step_of :: "real \<Rightarrow> real \<Rightarrow> vec \<Rightarrow> vec \<Rightarrow> py_error + vec" where
  "step_of step_size eps mhat vhat =
     broadcast2 (/) (map ((*) (- step_size)) mhat) (map (\<lambda>y. sqrt y + eps) vhat)"

text \<open>
  One iteration's update of \<open>(x, m, v)\<close> from the gradient \<open>g\<close>; the step \<open>dx\<close> is
  returned too, for the convergence check.
\<close>

definition adam_update ::
  "real \<Rightarrow> real \<Rightarrow> real \<Rightarrow> real \<Rightarrow> nat \<Rightarrow> vec \<Rightarrow> vec \<times> vec \<times> vec
     \<Rightarrow> py_error + (vec \<times> vec \<times> vec \<times> vec)" where
  "adam_update step_size b1 b2 eps i g s =
     (case s of (x, m, v) \<Rightarrow>
      case first_moment b1 g m of
        Inl e \<Rightarrow> Inl e
      | Inr m' \<Rightarrow>
      case second_moment b2 g v of
        Inl e \<Rightarrow> Inl e
      | Inr v' \<Rightarrow>
      let mhat = bias_correct b1 i m';
          vhat = bias_correct b2 i v'
      in
      case step_of step_size eps mhat vhat of
        Inl e \<Rightarrow> Inl e
      | Inr dx \<Rightarrow>
      case broadcast2 (+) x dx of
        Inl e \<Rightarrow> Inl e
      | Inr x' \<Rightarrow> Inr (x', m', v', dx))"

text \<open>
  \<open>np.mean(abs(dx)) < tol\<close>. The mean of an empty array is NaN, and a comparison with
  NaN is false.
\<close>

definition converged :: "vec \<Rightarrow> real \<Rightarrow> bool" where
  "converged dx tol \<longleftrightarrow> dx \<noteq> [] \<and> sum_list (map abs dx) / real (length dx) < tol"

text \<open>
  The loop over \<open>range(num_iters)\<close>, by recursion on the indices still to come. The
  callback observes \<open>(x, i, g)\<close>; what it does to the world outside the optimizer is a
  function on a state \<open>'w\<close>, and it cannot change \<open>x\<close>, \<open>m\<close> or \<open>v\<close>.
\<close>

fun adam_loop ::
  "(vec \<Rightarrow> nat \<Rightarrow> vec) \<Rightarrow> (vec \<Rightarrow> nat \<Rightarrow> vec \<Rightarrow> 'w \<Rightarrow> 'w) option
     \<Rightarrow> real \<Rightarrow> real \<Rightarrow> real \<Rightarrow> real \<Rightarrow> real
     \<Rightarrow> nat list \<Rightarrow> vec \<times> vec \<times> vec \<Rightarrow> 'w \<Rightarrow> py_error + (vec \<times> 'w)" where
  "adam_loop grad callback step_size b1 b2 eps tol [] s w = Inr (fst s, w)"
| "adam_loop grad callback step_size b1 b2 eps tol (i # rest) s w =
     (let g = grad (fst s) i;
          w' = (case callback of None \<Rightarrow> w | Some cb \<Rightarrow> cb (fst s) i g w)
      in
      case adam_update step_size b1 b2 eps i g s of
        Inl e \<Rightarrow> Inl e
      | Inr (x', m', v', dx) \<Rightarrow>
          if converged dx tol then Inr (x', w')
          else adam_loop grad callback step_size b1 b2 eps tol rest (x', m', v') w')"

definition adam_with_convergence_check ::
  "globals \<Rightarrow> (vec \<Rightarrow> nat \<Rightarrow> vec) \<Rightarrow> vec \<Rightarrow> (vec \<Rightarrow> nat \<Rightarrow> vec \<Rightarrow> 'w \<Rightarrow> 'w) option
     \<Rightarrow> real \<Rightarrow> real \<Rightarrow> real \<Rightarrow> real \<Rightarrow> real \<Rightarrow> 'w \<Rightarrow> py_error + (vec \<times> 'w)" where
  "adam_with_convergence_check glb grad x callback step_size b1 b2 eps tol w =
     (let m = replicate (length x) 0;
          v = replicate (length x) 0
      in
      case glb ''num_iters'' of
        None \<Rightarrow> Inl NameError
      | Some num_iters \<Rightarrow>
          adam_loop grad callback step_size b1 b2 eps tol [0..<nat num_iters] (x, m, v) w)"

text \<open>
  The recurrence as the specification words it (section 4.2, steps 1 to 7), to compare
  the loop with: one step from \<open>(x, m, v)\<close> at index \<open>i\<close> with gradient \<open>g\<close>, written
  componentwise, and the sequence of states it generates from \<open>m = v = 0\<close>.
  \<open>spec_state ... k\<close> is the state after \<open>k\<close> steps, \<open>spec_dx ... k\<close> the step taken at
  index \<open>k\<close>, and \<open>spec_world ... k\<close> what the observer has done after \<open>k\<close> calls.
\<close>

definition spec_step ::
  "real \<Rightarrow> real \<Rightarrow> real \<Rightarrow> real \<Rightarrow> nat \<Rightarrow> vec \<Rightarrow> vec \<times> vec \<times> vec \<Rightarrow> vec \<times> vec \<times> vec \<times> vec" where
  "spec_step stepSize beta1 beta2 epsilon i g s =
     (case s of (x, m, v) \<Rightarrow>
      let m' = map2 (\<lambda>gk mk. (1 - beta1) * gk + beta1 * mk) g m;
          v' = map2 (\<lambda>gk vk. (1 - beta2) * gk ^ 2 + beta2 * vk) g v;
          mhat = map (\<lambda>mk. mk / (1 - beta1 ^ (i + 1))) m';
          vhat = map (\<lambda>vk. vk / (1 - beta2 ^ (i + 1))) v';
          dx = map2 (\<lambda>mh vh. - stepSize * mh / (sqrt vh + epsilon)) mhat vhat
      in (map2 (+) x dx, m', v', dx))"

fun spec_state ::
  "(vec \<Rightarrow> nat \<Rightarrow> vec) \<Rightarrow> real \<Rightarrow> real \<Rightarrow> real \<Rightarrow> real \<Rightarrow> vec \<Rightarrow> nat \<Rightarrow> vec \<times> vec \<times> vec" where
  "spec_state gradientFn stepSize beta1 beta2 epsilon x0 0 =
     (x0, replicate (length x0) 0, replicate (length x0) 0)"
| "spec_state gradientFn stepSize beta1 beta2 epsilon x0 (Suc i) =
     (let s = spec_state gradientFn stepSize beta1 beta2 epsilon x0 i
      in case spec_step stepSize beta1 beta2 epsilon i (gradientFn (fst s) i) s of
           (x', m', v', dx) \<Rightarrow> (x', m', v'))"

definition spec_dx ::
  "(vec \<Rightarrow> nat \<Rightarrow> vec) \<Rightarrow> real \<Rightarrow> real \<Rightarrow> real \<Rightarrow> real \<Rightarrow> vec \<Rightarrow> nat \<Rightarrow> vec" where
  "spec_dx gradientFn stepSize beta1 beta2 epsilon x0 i =
     (let s = spec_state gradientFn stepSize beta1 beta2 epsilon x0 i
      in case spec_step stepSize beta1 beta2 epsilon i (gradientFn (fst s) i) s of
           (x', m', v', dx) \<Rightarrow> dx)"

fun spec_world ::
  "(vec \<Rightarrow> nat \<Rightarrow> vec) \<Rightarrow> (vec \<Rightarrow> nat \<Rightarrow> vec \<Rightarrow> 'w \<Rightarrow> 'w) option
     \<Rightarrow> real \<Rightarrow> real \<Rightarrow> real \<Rightarrow> real \<Rightarrow> vec \<Rightarrow> 'w \<Rightarrow> nat \<Rightarrow> 'w" where
  "spec_world gradientFn callback stepSize beta1 beta2 epsilon x0 w0 0 = w0"
| "spec_world gradientFn callback stepSize beta1 beta2 epsilon x0 w0 (Suc i) =
     (let xi = fst (spec_state gradientFn stepSize beta1 beta2 epsilon x0 i);
          w = spec_world gradientFn callback stepSize beta1 beta2 epsilon x0 w0 i
      in case callback of None \<Rightarrow> w | Some cb \<Rightarrow> cb xi i (gradientFn xi i) w)"

subsection \<open>random_rotation\<close>

text \<open>
  Square real matrices as lists of rows. The random draws are arguments: the two
  uniform draws of \<open>np.random.rand()\<close>, which lie in \<open>[0, 1)\<close>, and the factor \<open>Q\<close> that
  \<open>np.linalg.qr\<close> (numpy, an external library) returns for the Gaussian sample.
\<close>

type_synonym matrix = "real list list"

record rotation_draws =
  theta_draw :: real
  scale_draw :: real
  qr_factor :: matrix

definition eye :: "nat \<Rightarrow> matrix" where
  "eye n = map (\<lambda>i. map (\<lambda>j. if i = j then 1 else 0) [0..<n]) [0..<n]"

definition zeros_sq :: "nat \<Rightarrow> matrix" where
  "zeros_sq n = replicate n (replicate n 0)"

definition dot :: "nat \<Rightarrow> matrix \<Rightarrow> matrix \<Rightarrow> matrix" where
  "dot n A B =
     map (\<lambda>i. map (\<lambda>j. sum_list (map (\<lambda>k. A ! i ! k * B ! k ! j) [0..<n])) [0..<n]) [0..<n]"

definition mat_T :: "nat \<Rightarrow> matrix \<Rightarrow> matrix" where
  "mat_T n A = map (\<lambda>i. map (\<lambda>j. A ! j ! i) [0..<n]) [0..<n]"

text \<open>\<open>out[:2, :2] = rot\<close> on a matrix with at least two rows and two columns.\<close>

definition set_block2 :: "matrix \<Rightarrow> matrix \<Rightarrow> matrix" where
  "set_block2 out rot =
     out[0 := (out ! 0)[0 := rot ! 0 ! 0, 1 := rot ! 0 ! 1],
         1 := (out ! 1)[0 := rot ! 1 ! 0, 1 := rot ! 1 ! 1]]"

text \<open>
  The angle: the argument \<open>theta\<close>, or \<open>0.5 * np.pi * np.random.rand()\<close> when it is
  None; and the 2 by 2 rotation \<open>rot\<close> by that angle.
\<close>

definition rotation_angle :: "rotation_draws \<Rightarrow> real option \<Rightarrow> real" where
  "rotation_angle d theta = (case theta of None \<Rightarrow> 0.5 * pi * theta_draw d | Some t \<Rightarrow> t)"

definition rotation2 :: "real \<Rightarrow> matrix" where
  "rotation2 th = [[cos th, - sin th], [sin th, cos th]]"

definition is_square :: "nat \<Rightarrow> matrix \<Rightarrow> bool" where
  "is_square n A \<longleftrightarrow> length A = n \<and> list_all (\<lambda>row. length row = n) A"

text \<open>
  For \<open>n = 0\<close> the slice \<open>out[:2, :2]\<close> is empty and the assignment of the 2 by 2 block
  raises ValueError. \<open>q\<close> is the factor of an \<open>n\<close> by \<open>n\<close> sample and so \<open>n\<close> by \<open>n\<close>; on
  any other shape \<open>dot\<close> would raise ValueError, which the model writes out since \<open>q\<close>
  is an argument here.
\<close>

definition random_rotation :: "rotation_draws \<Rightarrow> nat \<Rightarrow> real option \<Rightarrow> py_error + matrix" where
  "random_rotation d n theta =
     (let th = rotation_angle d theta in
      if n = 1 then Inr (map (map ((*) (scale_draw d))) (eye 1))
      else if n = 0 then Inl ValueError
      else
        let rot = rotation2 th;
            out = set_block2 (zeros_sq n) rot;
            q = qr_factor d
        in if is_square n q then Inr (dot n (dot n q out) (mat_T n q)) else Inl ValueError)"

definition is_orthogonal :: "nat \<Rightarrow> matrix \<Rightarrow> bool" where
  "is_orthogonal n A \<longleftrightarrow> is_square n A \<and> dot n A (mat_T n A) = eye n"

section \<open>Properties of compute_state_overlap\<close>

lemma fill_row_aux:
  "n \<le> length row \<Longrightarrow>
   fold (\<lambda>k2 r. r[k2 := f k2]) [0..<n] row = map f [0..<n] @ drop n row"
proof (induction n)
  case 0
  then show ?case by simp
next
  case (Suc n)
  then have n: "n < length row" by simp
  have "(map f [0..<n] @ drop n row)[n := f n] = map f [0..<n] @ (drop n row)[0 := f n]"
    by (simp add: list_update_append)
  also have "(drop n row)[0 := f n] = f n # drop (Suc n) row"
    using n by (simp add: Cons_nth_drop_Suc [symmetric])
  finally show ?case using Suc by simp
qed

lemma fill_row_eq:
  "length row = K2 \<Longrightarrow>
   fill_row z1 z2 k1 K2 row = map (\<lambda>k2. count_pair z1 z2 (int k1) (int k2)) [0..<K2]"
  unfolding fill_row_def using fill_row_aux [of K2 row] by simp

lemma fill_overlap_aux:
  "n \<le> length ov \<Longrightarrow> \<forall>r \<in> set ov. length r = K2 \<Longrightarrow>
   fold (\<lambda>k1 m. m[k1 := fill_row z1 z2 k1 K2 (m ! k1)]) [0..<n] ov
     = map (\<lambda>k1. map (\<lambda>k2. count_pair z1 z2 (int k1) (int k2)) [0..<K2]) [0..<n] @ drop n ov"
proof (induction n)
  case 0
  then show ?case by simp
next
  case (Suc n)
  then have n: "n < length ov" by simp
  let ?g = "\<lambda>k1. map (\<lambda>k2. count_pair z1 z2 (int k1) (int k2)) [0..<K2]"
  have row: "length (ov ! n) = K2" using Suc.prems n by simp
  have "(map ?g [0..<n] @ drop n ov) ! n = ov ! n"
    using n by (simp add: nth_append)
  moreover have "(map ?g [0..<n] @ drop n ov)[n := ?g n] = map ?g [0..<n] @ (drop n ov)[0 := ?g n]"
    by (simp add: list_update_append)
  moreover have "(drop n ov)[0 := ?g n] = ?g n # drop (Suc n) ov"
    using n by (simp add: Cons_nth_drop_Suc [symmetric])
  ultimately show ?case using Suc row by (simp add: fill_row_eq)
qed

lemma fill_overlap_eq:
  "fill_overlap z1 z2 K1 K2 (zeros2 K1 K2)
     = map (\<lambda>k1. map (\<lambda>k2. count_pair z1 z2 (int k1) (int k2)) [0..<K2]) [0..<K1]"
  unfolding fill_overlap_def
  using fill_overlap_aux [of K1 "zeros2 K1 K2" K2 z1 z2] by (simp add: zeros2_def)

lemma count_pair_Nil [simp]: "count_pair [] z2 k1 k2 = 0" "count_pair z1 [] k1 k2 = 0"
  by (simp_all add: count_pair_def)

lemma count_pair_Cons [simp]:
  "count_pair (a # z1) (b # z2) k1 k2 = (if a = k1 \<and> b = k2 then 1 else 0) + count_pair z1 z2 k1 k2"
  by (simp add: count_pair_def)

lemma count_pair_card:
  "length z1 = length z2 \<Longrightarrow>
   count_pair z1 z2 k1 k2 = int (card {t. t < length z1 \<and> z1 ! t = k1 \<and> z2 ! t = k2})"
proof (induction z1 z2 rule: list_induct2)
  case Nil
  then show ?case by simp
next
  case (Cons a z1 b z2)
  let ?S = "{t. t < length z1 \<and> z1 ! t = k1 \<and> z2 ! t = k2}"
  let ?S' = "{t. t < length (a # z1) \<and> (a # z1) ! t = k1 \<and> (b # z2) ! t = k2}"
  have fin: "finite ?S" by simp
  have split: "?S' = (if a = k1 \<and> b = k2 then {0} else {}) \<union> Suc ` ?S"
  proof (rule set_eqI)
    fix t show "t \<in> ?S' \<longleftrightarrow> t \<in> (if a = k1 \<and> b = k2 then {0} else {}) \<union> Suc ` ?S"
      by (cases t) auto
  qed
  have "card ?S' = (if a = k1 \<and> b = k2 then 1 else 0) + card ?S"
  proof -
    have c: "card (Suc ` ?S) = card ?S" by (simp add: card_image)
    have d: "0 \<notin> Suc ` ?S" by auto
    show ?thesis unfolding split using c d fin by (simp add: card_insert_if)
  qed
  then show ?case using Cons by simp
qed

lemma indicator_sum:
  "(\<Sum>k<n. if b = int k then (1::int) else 0) = (if 0 \<le> b \<and> b < int n then 1 else 0)"
proof (induction n)
  case 0
  then show ?case by simp
next
  case (Suc n)
  then show ?case by auto
qed

lemma indicator_sum2:
  "(\<Sum>k1<K1. \<Sum>k2<K2. if a = int k1 \<and> b = int k2 then (1::int) else 0)
     = (if 0 \<le> a \<and> a < int K1 \<and> 0 \<le> b \<and> b < int K2 then 1 else 0)"
proof -
  have "(\<Sum>k1<K1. \<Sum>k2<K2. if a = int k1 \<and> b = int k2 then (1::int) else 0)
      = (\<Sum>k1<K1. if a = int k1 then (if 0 \<le> b \<and> b < int K2 then 1 else 0) else 0)"
    by (rule sum.cong) (auto simp: indicator_sum)
  also have "\<dots> = (if 0 \<le> a \<and> a < int K1 \<and> 0 \<le> b \<and> b < int K2 then 1 else 0)"
    by (cases "0 \<le> b \<and> b < int K2") (simp_all add: indicator_sum)
  finally show ?thesis .
qed


lemma count_pair_sum:
  "(\<Sum>k1<K1. \<Sum>k2<K2. count_pair z1 z2 (int k1) (int k2))
     = int (length (filter (in_range K1 K2) (zip z1 z2)))"
proof (induction z1 arbitrary: z2)
  case Nil
  then show ?case by simp
next
  case (Cons a z1)
  show ?case
  proof (cases z2)
    case Nil
    then show ?thesis by simp
  next
    case (Cons b z2')
    have "(\<Sum>k1<K1. \<Sum>k2<K2. count_pair (a # z1) (b # z2') (int k1) (int k2))
        = (\<Sum>k1<K1. \<Sum>k2<K2. if a = int k1 \<and> b = int k2 then (1::int) else 0)
          + (\<Sum>k1<K1. \<Sum>k2<K2. count_pair z1 z2' (int k1) (int k2))"
      by (simp add: sum.distrib)
    then show ?thesis
      using Cons.IH [of z2'] Cons by (simp add: indicator_sum2 in_range_def)
  qed
qed

lemma total_map:
  "total \<lparr>nrows = r, ncols = c, cells = map (\<lambda>k1. map (\<lambda>k2. f k1 k2) [0..<c]) [0..<r]\<rparr>
     = (\<Sum>k1<r. \<Sum>k2<c. f k1 k2)"
  by (simp add: total_def comp_def interv_sum_list_conv_sum_set_nat atLeast0LessThan)

lemma Min_nonneg: "z \<noteq> [] \<Longrightarrow> (0 \<le> Min (set z)) = list_all (\<lambda>a. 0 \<le> (a::int)) z"
  by (simp add: list_all_iff)

lemma Min_nonnegI: "z \<noteq> [] \<Longrightarrow> list_all (\<lambda>a. 0 \<le> (a::int)) z \<Longrightarrow> 0 \<le> Min (set z)"
  by (simp add: list_all_iff)

lemma Min_nonnegD: "z \<noteq> [] \<Longrightarrow> 0 \<le> Min (set z) \<Longrightarrow> list_all (\<lambda>a. 0 \<le> (a::int)) z"
  by (simp add: list_all_iff)

lemma cso_valid:
  "valid_labels z1 z2 \<Longrightarrow> 0 \<le> dim_of z1 K1 \<Longrightarrow> 0 \<le> dim_of z2 K2 \<Longrightarrow>
   compute_state_overlap z1 z2 K1 K2 =
     Inr \<lparr>nrows = nat (dim_of z1 K1), ncols = nat (dim_of z2 K2),
          cells = map (\<lambda>k1. map (\<lambda>k2. count_pair z1 z2 (int k1) (int k2)) [0..<nat (dim_of z2 K2)])
                    [0..<nat (dim_of z1 K1)]\<rparr>"
proof -
  assume v: "valid_labels z1 z2" and d: "0 \<le> dim_of z1 K1" "0 \<le> dim_of z2 K2"
  from v have ne: "z1 \<noteq> []" "z2 \<noteq> []" and len: "length z1 = length z2"
    by (auto simp: valid_labels_def)
  from v ne have "0 \<le> Min (set z1)" "0 \<le> Min (set z2)"
    by (auto simp: valid_labels_def list_all_iff)
  then show ?thesis
    using ne len d
    by (simp add: compute_state_overlap_def dim_of_def fill_overlap_eq Let_def not_less)
qed

lemma cso_InrD:
  "compute_state_overlap z1 z2 K1 K2 = Inr ov \<Longrightarrow>
   valid_labels z1 z2 \<and> 0 \<le> dim_of z1 K1 \<and> 0 \<le> dim_of z2 K2"
proof -
  assume a: "compute_state_overlap z1 z2 K1 K2 = Inr ov"
  then have len: "length z1 = length z2" and ne: "z1 \<noteq> []"
    by (auto simp: compute_state_overlap_def split: if_splits)
  then have ne2: "z2 \<noteq> []" by auto
  from a len ne have "0 \<le> Min (set z1)" "0 \<le> Min (set z2)"
    by (auto simp: compute_state_overlap_def split: if_splits)
  then have "list_all (\<lambda>a. 0 \<le> a) z1" "list_all (\<lambda>a. 0 \<le> a) z2"
    using ne ne2 by (auto intro: Min_nonnegD)
  moreover from a len ne have "0 \<le> dim_of z1 K1 \<and> 0 \<le> dim_of z2 K2"
    by (auto simp: compute_state_overlap_def dim_of_def Let_def split: if_splits)
  ultimately show ?thesis using len ne by (simp add: valid_labels_def)
qed


lemma cso_empty: "compute_state_overlap [] [] K1 K2 = Inl ValueError"
  by (simp add: compute_state_overlap_def)

lemma filter_all_length:
  "\<forall>p \<in> set ps. P p \<Longrightarrow> length (filter P ps) = length ps"
  by (induction ps) auto


text \<open>
  Claim C5 asks for two sequences of one length, without negative labels and with all
  labels below the dimensions. Two empty sequences with supplied dimensions meet each of
  these conditions, and the function returns no matrix for them: \<open>z1.min()\<close> in the
  third assertion raises ValueError on an array of size zero.
\<close>

theorem overlap_sum_empty_counterexample:
  "length ([] :: int list) = length ([] :: int list)
   \<and> list_all (\<lambda>a. 0 \<le> a) ([] :: int list)
   \<and> list_all (\<lambda>a. a < 2) ([] :: int list)
   \<and> compute_state_overlap [] [] (Some 2) (Some 2) = Inl ValueError"
  by (simp add: compute_state_overlap_def)

text \<open>
  Claim C5, amended. For two label sequences of one length \<open>T \<ge> 1\<close>, without negative
  labels and with all labels below the dimensions, supplied or defaulted,
  \<open>compute_state_overlap\<close> returns a matrix and the sum of its entries is \<open>T\<close>. (By
  \<open>cso_InrD\<close> it returns a matrix on no other input than those of the hypothesis
  \<open>valid_labels\<close>.)
\<close>

theorem overlap_sum_is_length:
  assumes "valid_labels z1 z2"
    and "\<forall>a \<in> set z1. a < dim_of z1 K1"
    and "\<forall>b \<in> set z2. b < dim_of z2 K2"
  shows "\<exists>ov. compute_state_overlap z1 z2 K1 K2 = Inr ov \<and> total ov = int (length z1)"
proof -
  from assms(1) have ne: "z1 \<noteq> []" "z2 \<noteq> []" and len: "length z1 = length z2"
    and nn: "\<forall>a \<in> set z1. 0 \<le> a" "\<forall>b \<in> set z2. 0 \<le> b"
    by (auto simp: valid_labels_def list_all_iff)
  from ne obtain a b where ab: "a \<in> set z1" "b \<in> set z2"
    by (meson last_in_set)
  with nn assms(2,3) have d: "0 \<le> dim_of z1 K1" "0 \<le> dim_of z2 K2"
    by force+
  let ?K1 = "nat (dim_of z1 K1)" and ?K2 = "nat (dim_of z2 K2)"
  have "\<forall>p \<in> set (zip z1 z2). in_range ?K1 ?K2 p"
  proof
    fix p assume "p \<in> set (zip z1 z2)"
    then have "(fst p, snd p) \<in> set (zip z1 z2)" by simp
    then have "fst p \<in> set z1" "snd p \<in> set z2"
      by (rule set_zip_leftD, rule set_zip_rightD)
    with nn assms(2,3) d show "in_range ?K1 ?K2 p"
      by (simp add: in_range_def)
  qed
  then have "length (filter (in_range ?K1 ?K2) (zip z1 z2)) = length z1"
    using len by (simp add: filter_all_length)
  then show ?thesis
    using cso_valid [OF assms(1) d] by (simp add: total_map count_pair_sum)
qed

theorem overlap_sum_is_length_witness:
  "\<exists>ov. compute_state_overlap [0, 0, 0, 1, 1] [0, 1, 2, 2, 2] (Some 2) None = Inr ov
        \<and> total ov = 5"
proof -
  have "valid_labels [0, 0, 0, 1, 1] [0, 1, 2, 2, 2]"
    by (simp add: valid_labels_def)
  moreover have "\<forall>a \<in> set [0, 0, 0, 1, 1::int]. a < dim_of [0, 0, 0, 1, 1] (Some 2)"
    by (simp add: dim_of_def)
  moreover have "\<forall>b \<in> set [0, 1, 2, 2, 2::int]. b < dim_of [0, 1, 2, 2, 2] None"
    by (simp add: dim_of_def)
  ultimately show ?thesis
    using overlap_sum_is_length [of "[0, 0, 0, 1, 1]" "[0, 1, 2, 2, 2]" "Some 2" None] by simp
qed

text \<open>
  Claim C6. On valid label sequences \<open>compute_state_overlap\<close> returns a matrix with
  \<open>K1\<close> rows and \<open>K2\<close> columns, where \<open>K1\<close> is the supplied value or else
  \<open>max(z1) + 1\<close>, and likewise \<open>K2\<close>; its entry \<open>(k1, k2)\<close> is the number of positions
  \<open>t\<close> with \<open>z1[t] = k1\<close> and \<open>z2[t] = k2\<close>.
\<close>

theorem overlap_counts_pairs:
  assumes "valid_labels z1 z2"
    and "case K1 of None \<Rightarrow> True | Some k \<Rightarrow> 0 \<le> k"
    and "case K2 of None \<Rightarrow> True | Some k \<Rightarrow> 0 \<le> k"
  shows "\<exists>ov. compute_state_overlap z1 z2 K1 K2 = Inr ov
      \<and> nrows ov = nat (case K1 of None \<Rightarrow> Max (set z1) + 1 | Some k \<Rightarrow> k)
      \<and> ncols ov = nat (case K2 of None \<Rightarrow> Max (set z2) + 1 | Some k \<Rightarrow> k)
      \<and> length (cells ov) = nrows ov
      \<and> (\<forall>k1 < nrows ov. length (cells ov ! k1) = ncols ov
           \<and> (\<forall>k2 < ncols ov. cells ov ! k1 ! k2 =
                int (card {t. t < length z1 \<and> z1 ! t = int k1 \<and> z2 ! t = int k2})))"
proof -
  from assms(1) have ne: "z1 \<noteq> []" "z2 \<noteq> []" and len: "length z1 = length z2"
    and nn: "\<forall>a \<in> set z1. 0 \<le> a" "\<forall>b \<in> set z2. 0 \<le> b"
    by (auto simp: valid_labels_def list_all_iff)
  have "0 \<le> Max (set z1)" "0 \<le> Max (set z2)"
    using ne nn by (simp_all add: Max_ge_iff) (meson last_in_set)+
  then have d: "0 \<le> dim_of z1 K1" "0 \<le> dim_of z2 K2"
    using assms(2,3) by (auto simp: dim_of_def split: option.splits)
  show ?thesis
    using cso_valid [OF assms(1) d] len
    by (simp add: dim_of_def count_pair_card)
qed

theorem overlap_counts_pairs_witness:
  "\<exists>ov. compute_state_overlap [0, 0, 1, 1] [1, 1, 0, 0] None None = Inr ov
      \<and> nrows ov = 2 \<and> ncols ov = 2 \<and> length (cells ov) = 2
      \<and> cells ov ! 0 ! 1 =
          int (card {t. t < length [0, 0, 1, 1::int]
                      \<and> [0, 0, 1, 1] ! t = (0::int) \<and> [1, 1, 0, 0] ! t = (1::int)})"
proof -
  have v: "valid_labels [0, 0, 1, 1] [1, 1, 0, 0]"
    by (simp add: valid_labels_def)
  from overlap_counts_pairs [OF v, of None None]
  obtain ov where ov: "compute_state_overlap [0, 0, 1, 1] [1, 1, 0, 0] None None = Inr ov"
    and sh: "nrows ov = 2" "ncols ov = 2" "length (cells ov) = nrows ov"
    and cell: "\<forall>k1 < nrows ov. length (cells ov ! k1) = ncols ov
           \<and> (\<forall>k2 < ncols ov. cells ov ! k1 ! k2 =
                int (card {t. t < length [0, 0, 1, 1::int]
                  \<and> [0, 0, 1, 1] ! t = int k1 \<and> [1, 1, 0, 0] ! t = int k2}))"
    by auto
  have "(0::nat) < nrows ov" "(1::nat) < ncols ov" using sh by simp_all
  with cell have "cells ov ! 0 ! 1 =
      int (card {t. t < length [0, 0, 1, 1::int]
                  \<and> [0, 0, 1, 1] ! t = int 0 \<and> [1, 1, 0, 0] ! t = int 1})"
    by blast
  then have "cells ov ! 0 ! 1 =
      int (card {t. t < length [0, 0, 1, 1::int]
                  \<and> [0, 0, 1, 1] ! t = (0::int) \<and> [1, 1, 0, 0] ! t = (1::int)})"
    by simp
  with ov sh show ?thesis by (intro exI [of _ ov]) simp
qed

section \<open>Properties of find_permutation\<close>

lemma cso_shape:
  assumes "compute_state_overlap z1 z2 K1 K2 = Inr ov"
  shows "length (cells ov) = nrows ov"
    and "k < nrows ov \<Longrightarrow> length (cells ov ! k) = ncols ov"
    and "k < nrows ov \<Longrightarrow> j < ncols ov \<Longrightarrow> cells ov ! k ! j = count_pair z1 z2 (int k) (int j)"
proof -
  from cso_InrD [OF assms] have v: "valid_labels z1 z2" "0 \<le> dim_of z1 K1" "0 \<le> dim_of z2 K2"
    by simp_all
  from cso_valid [OF v] assms
  have ov: "ov = \<lparr>nrows = nat (dim_of z1 K1), ncols = nat (dim_of z2 K2),
          cells = map (\<lambda>k1. map (\<lambda>k2. count_pair z1 z2 (int k1) (int k2)) [0..<nat (dim_of z2 K2)])
                    [0..<nat (dim_of z1 K1)]\<rparr>"
    by simp
  show "length (cells ov) = nrows ov" by (simp add: ov)
  show "k < nrows ov \<Longrightarrow> length (cells ov ! k) = ncols ov" by (simp add: ov)
  show "k < nrows ov \<Longrightarrow> j < ncols ov \<Longrightarrow> cells ov ! k ! j = count_pair z1 z2 (int k) (int j)"
    by (simp add: ov)
qed

lemma cso_dims:
  assumes "compute_state_overlap z1 z2 K1 K2 = Inr ov"
  shows "nrows ov = nat (dim_of z1 K1)" "ncols ov = nat (dim_of z2 K2)"
    "0 \<le> dim_of z1 K1" "0 \<le> dim_of z2 K2"
proof -
  from cso_InrD [OF assms] have v: "valid_labels z1 z2" "0 \<le> dim_of z1 K1" "0 \<le> dim_of z2 K2"
    by simp_all
  from cso_valid [OF v] assms show "nrows ov = nat (dim_of z1 K1)" "ncols ov = nat (dim_of z2 K2)"
    by auto
  from v show "0 \<le> dim_of z1 K1" "0 \<le> dim_of z2 K2" by simp_all
qed

lemma find_permutation_Inr:
  assumes "compute_state_overlap z1 z2 K1 K2 = Inr ov"
    and "nrows ov \<le> ncols ov"
    and "fst (lsa (negate ov)) = [0..<nrows ov]"
  shows "find_permutation lsa ul z1 z2 K1 K2 =
     Inr (if nrows ov < ncols ov
          then snd (lsa (negate ov)) @ ul (ncols ov) (snd (lsa (negate ov)))
          else snd (lsa (negate ov)))"
  using assms by (simp add: find_permutation_def split_beta)

lemma find_permutation_too_many_rows:
  assumes "compute_state_overlap z1 z2 K1 K2 = Inr ov" and "ncols ov < nrows ov"
  shows "find_permutation lsa ul z1 z2 K1 K2 = Inl AssertionError"
  using assms by (simp add: find_permutation_def)

lemma assignment_cost_sum:
  "length C = length cs \<Longrightarrow> assignment_cost C cs = (\<Sum>k<length cs. C ! k ! (cs ! k))"
  by (simp add: assignment_cost_def sum_list_sum_nth atLeast0LessThan)

lemma assignment_cost_negate:
  assumes "length (cells ov) = nrows ov"
    and "\<And>k. k < nrows ov \<Longrightarrow> length (cells ov ! k) = ncols ov"
    and "is_assignment (nrows ov) (ncols ov) cs"
  shows "assignment_cost (cells (negate ov)) cs = - total_overlap ov (\<lambda>k. cs ! k)"
proof -
  from assms(3) have len: "length cs = nrows ov" and rng: "\<And>k. k < nrows ov \<Longrightarrow> cs ! k < ncols ov"
    by (auto simp: is_assignment_def list_all_length)
  have "assignment_cost (cells (negate ov)) cs
      = (\<Sum>k<nrows ov. map (map uminus) (cells ov) ! k ! (cs ! k))"
    using assms(1) len by (simp add: assignment_cost_sum negate_def)
  also have "\<dots> = (\<Sum>k<nrows ov. - (cells ov ! k ! (cs ! k)))"
    by (rule sum.cong) (use assms(1,2) rng in auto)
  finally show ?thesis by (simp add: total_overlap_def sum_negf)
qed

lemma negate_shape [simp]: "nrows (negate ov) = nrows ov" "ncols (negate ov) = ncols ov"
  by (simp_all add: negate_def)

lemma is_assignment_of_fun:
  assumes "inj_on f {..<r}" and "f ` {..<r} \<subseteq> {..<c}"
  shows "is_assignment r c (map f [0..<r])"
  using assms by (auto simp: is_assignment_def distinct_map list_all_iff atLeast0LessThan)

lemma total_overlap_cong:
  "(\<And>k. k < nrows ov \<Longrightarrow> f k = g k) \<Longrightarrow> total_overlap ov f = total_overlap ov g"
  by (simp add: total_overlap_def)

lemma solved_is_maximal:
  assumes cso: "compute_state_overlap z1 z2 K1 K2 = Inr ov"
    and sol: "solves_assignment lsa (negate ov)"
    and f: "inj_on f {..<nrows ov}" "f ` {..<nrows ov} \<subseteq> {..<ncols ov}"
  shows "total_overlap ov f \<le> total_overlap ov (\<lambda>k. snd (lsa (negate ov)) ! k)"
proof -
  let ?cols = "snd (lsa (negate ov))" and ?cs = "map f [0..<nrows ov]"
  from sol have a: "is_assignment (nrows ov) (ncols ov) ?cols"
    and best: "\<And>cs. is_assignment (nrows ov) (ncols ov) cs \<Longrightarrow>
      assignment_cost (cells (negate ov)) ?cols \<le> assignment_cost (cells (negate ov)) cs"
    by (auto simp: solves_assignment_def split_beta)
  have cs: "is_assignment (nrows ov) (ncols ov) ?cs"
    using f by (rule is_assignment_of_fun)
  note sh = cso_shape(1,2) [OF cso]
  have "- total_overlap ov (\<lambda>k. ?cols ! k) \<le> - total_overlap ov (\<lambda>k. ?cs ! k)"
    using best [OF cs] by (simp add: assignment_cost_negate [OF sh a] assignment_cost_negate [OF sh cs])
  moreover have "total_overlap ov (\<lambda>k. ?cs ! k) = total_overlap ov f"
    by (rule total_overlap_cong) simp
  ultimately show ?thesis by simp
qed

lemma assignment_padded_perm:
  assumes a: "is_assignment r c cols" and u: "mset us = mset (filter (\<lambda>j. j \<notin> set cols) [0..<c])"
  shows "mset (cols @ us) = mset [0..<c]"
proof -
  from a have d: "distinct cols" and s: "set cols \<subseteq> {..<c}"
    by (auto simp: is_assignment_def list_all_iff)
  have "set cols = set (filter (\<lambda>j. j \<in> set cols) [0..<c])"
    using s by auto
  moreover have "distinct (filter (\<lambda>j. j \<in> set cols) [0..<c])" by simp
  ultimately have eq: "mset cols = mset (filter (\<lambda>j. j \<in> set cols) [0..<c])"
    using d set_eq_iff_mset_eq_distinct by blast
  have part: "mset (filter (\<lambda>j. j \<in> set cols) [0..<c])
      + mset (filter (\<lambda>j. j \<notin> set cols) [0..<c]) = mset [0..<c]"
    unfolding mset_filter by (rule multiset_partition [symmetric])
  show ?thesis unfolding mset_append using eq u part by (simp only:)
qed

lemma assignment_square_perm:
  assumes a: "is_assignment c c cols"
  shows "mset cols = mset [0..<c]"
proof -
  from a have d: "distinct cols" and s: "set cols \<subseteq> {..<c}" and l: "length cols = c"
    by (auto simp: is_assignment_def list_all_iff)
  from d l have "card (set cols) = c" by (simp add: distinct_card)
  with s have "set cols = {..<c}"
    by (simp add: card_subset_eq)
  then have "set cols = set [0..<c]" by (simp add: atLeast0LessThan)
  moreover have "distinct [0..<c]" by simp
  ultimately show ?thesis
    using d set_eq_iff_mset_eq_distinct by blast
qed

subsection \<open>The exhaustive solver keeps the solver's promise\<close>

lemma set_injections:
  "set (injections r xs) = {cs. length cs = r \<and> distinct cs \<and> set cs \<subseteq> set xs}"
proof (induction r arbitrary: xs)
  case 0
  then show ?case by auto
next
  case (Suc r)
  show ?case
  proof (rule set_eqI)
    fix cs
    show "cs \<in> set (injections (Suc r) xs)
        \<longleftrightarrow> cs \<in> {cs. length cs = Suc r \<and> distinct cs \<and> set cs \<subseteq> set xs}"
    proof (cases cs)
      case Nil
      then show ?thesis by (auto simp: Suc)
    next
      case (Cons c cs')
      then show ?thesis by (auto simp: Suc)
    qed
  qed
qed

lemma is_assignment_iff: "is_assignment r c cs \<longleftrightarrow> cs \<in> set (injections r [0..<c])"
  by (auto simp: set_injections is_assignment_def list_all_iff)

lemma is_assignment_take: "r \<le> c \<Longrightarrow> is_assignment r c (take r [0..<c])"
  by (auto simp: is_assignment_def list_all_iff dest: in_set_takeD)

lemma exhaustive_lsa_solves:
  assumes "nrows C \<le> ncols C"
  shows "solves_assignment exhaustive_lsa C"
proof -
  let ?xs = "injections (nrows C) [0..<ncols C]" and ?f = "assignment_cost (cells C)"
  have ne: "?xs \<noteq> []"
    using is_assignment_take [OF assms] by (auto simp: is_assignment_iff)
  have mem: "arg_min_list ?f ?xs \<in> set ?xs"
    using ne by (rule arg_min_list_in)
  have "\<And>cs. cs \<in> set ?xs \<Longrightarrow> ?f (arg_min_list ?f ?xs) \<le> ?f cs"
    using ne by (simp add: f_arg_min_list_f)
  with mem show ?thesis
    by (simp add: solves_assignment_def exhaustive_lsa_def is_assignment_iff)
qed

lemma ascending_unused_lists: "lists_unused ascending_unused K2 perm"
  by (simp add: lists_unused_def ascending_unused_def)

text \<open>
  Claim C4. When the overlap matrix of valid label sequences has more rows than columns
  (\<open>K1 > K2\<close>, each the supplied value or else the maximum label plus one),
  \<open>find_permutation\<close> fails with AssertionError, whatever the solver.
\<close>

theorem more_rows_than_columns_fails:
  assumes "valid_labels z1 z2"
    and "0 \<le> dim_of z2 K2"
    and "dim_of z2 K2 < dim_of z1 K1"
  shows "find_permutation lsa ul z1 z2 K1 K2 = Inl AssertionError"
proof -
  from assms have d: "0 \<le> dim_of z1 K1" by simp
  from cso_valid [OF assms(1) d assms(2)]
  obtain ov where ov: "compute_state_overlap z1 z2 K1 K2 = Inr ov"
    and "nrows ov = nat (dim_of z1 K1)" "ncols ov = nat (dim_of z2 K2)"
    by simp
  with assms(2,3) have "ncols ov < nrows ov" by simp
  with ov show ?thesis by (rule find_permutation_too_many_rows)
qed

theorem more_rows_than_columns_fails_witness:
  "find_permutation exhaustive_lsa ascending_unused [0, 1, 2] [0, 0, 1] None None
     = Inl AssertionError"
proof -
  have "valid_labels [0, 1, 2] [0, 0, 1]"
    by (simp add: valid_labels_def)
  moreover have "0 \<le> dim_of [0, 0, 1] None" "dim_of [0, 0, 1] None < dim_of [0, 1, 2] None"
    by (simp_all add: dim_of_def)
  ultimately show ?thesis by (rule more_rows_than_columns_fails)
qed

text \<open>
  Claim C3. When the overlap matrix has no more rows than columns, the solver keeps its
  promise on the negated matrix and the unused columns are listed once each, the result
  of \<open>find_permutation\<close> has length \<open>K2\<close> and holds every index below \<open>K2\<close> exactly
  once; its first \<open>K1\<close> entries are the matched columns and the rest are the
  \<open>K2 - K1\<close> unmatched ones.
\<close>

theorem permutation_of_columns:
  assumes "compute_state_overlap z1 z2 K1 K2 = Inr ov"
    and "nrows ov \<le> ncols ov"
    and "solves_assignment lsa (negate ov)"
    and "lists_unused ul (ncols ov) (snd (lsa (negate ov)))"
  shows "\<exists>perm. find_permutation lsa ul z1 z2 K1 K2 = Inr perm
      \<and> length perm = ncols ov
      \<and> mset perm = mset [0..<ncols ov]
      \<and> distinct perm \<and> set perm = {..<ncols ov}
      \<and> take (nrows ov) perm = snd (lsa (negate ov))
      \<and> length (drop (nrows ov) perm) = ncols ov - nrows ov
      \<and> set (drop (nrows ov) perm) = {..<ncols ov} - set (take (nrows ov) perm)"
proof -
  let ?cols = "snd (lsa (negate ov))"
  let ?perm = "if nrows ov < ncols ov then ?cols @ ul (ncols ov) ?cols else ?cols"
  from assms(3) have rows: "fst (lsa (negate ov)) = [0..<nrows ov]"
    and a: "is_assignment (nrows ov) (ncols ov) ?cols"
    by (auto simp: solves_assignment_def split_beta)
  from a have len: "length ?cols = nrows ov" by (simp add: is_assignment_def)
  have fp: "find_permutation lsa ul z1 z2 K1 K2 = Inr ?perm"
    using assms(1,2) rows by (rule find_permutation_Inr)
  have ms: "mset ?perm = mset [0..<ncols ov]"
  proof (cases "nrows ov < ncols ov")
    case True
    from assms(4) have "mset (ul (ncols ov) ?cols) = mset (filter (\<lambda>j. j \<notin> set ?cols) [0..<ncols ov])"
      by (simp add: lists_unused_def)
    with a have "mset (?cols @ ul (ncols ov) ?cols) = mset [0..<ncols ov]"
      by (rule assignment_padded_perm)
    with True show ?thesis by (simp only: if_True)
  next
    case False
    with assms(2) have "nrows ov = ncols ov" by simp
    with a have "mset ?cols = mset [0..<ncols ov]"
      using assignment_square_perm [of "ncols ov" ?cols] by simp
    with False show ?thesis by (simp only: if_False)
  qed
  have l: "length ?perm = ncols ov"
    using mset_eq_length [OF ms] by simp
  have s: "set ?perm = {..<ncols ov}"
    using mset_eq_setD [OF ms] by (simp add: atLeast0LessThan)
  have d: "distinct ?perm"
    using mset_eq_imp_distinct_iff [OF ms] by simp
  have t: "take (nrows ov) ?perm = ?cols"
    using len by simp
  have dl: "length (drop (nrows ov) ?perm) = ncols ov - nrows ov"
    using l by (simp only: length_drop)
  have "set (take (nrows ov) ?perm) \<union> set (drop (nrows ov) ?perm) = set ?perm"
    by (simp only: set_append [symmetric] append_take_drop_id)
  moreover have "set (take (nrows ov) ?perm) \<inter> set (drop (nrows ov) ?perm) = {}"
    using d by (metis append_take_drop_id distinct_append)
  ultimately have ds: "set (drop (nrows ov) ?perm) = {..<ncols ov} - set (take (nrows ov) ?perm)"
    using s by blast
  from fp l ms d s t dl ds show ?thesis by blast
qed


theorem permutation_of_columns_witness:
  "\<exists>perm. find_permutation exhaustive_lsa ascending_unused
             [0, 0, 0, 1, 1] [0, 1, 2, 2, 2] (Some 2) (Some 3) = Inr perm
      \<and> length perm = 3 \<and> mset perm = mset [0..<3] \<and> distinct perm \<and> set perm = {..<3}
      \<and> length (drop 2 perm) = 1 \<and> set (drop 2 perm) = {..<3} - set (take 2 perm)"
proof -
  let ?ov = "\<lparr>nrows = 2, ncols = 3, cells = [[1, 1, 1], [0, 0, 2]]\<rparr>"
  have h1: "compute_state_overlap [0, 0, 0, 1, 1] [0, 1, 2, 2, 2] (Some 2) (Some 3) = Inr ?ov"
    by code_simp
  have h2: "nrows ?ov \<le> ncols ?ov" by simp
  have h3: "solves_assignment exhaustive_lsa (negate ?ov)"
    by (rule exhaustive_lsa_solves) simp
  have h4: "lists_unused ascending_unused (ncols ?ov) (snd (exhaustive_lsa (negate ?ov)))"
    by (rule ascending_unused_lists)
  from permutation_of_columns [OF h1 h2 h3 h4]
  obtain perm where p: "find_permutation exhaustive_lsa ascending_unused
      [0, 0, 0, 1, 1] [0, 1, 2, 2, 2] (Some 2) (Some 3) = Inr perm"
    and q: "length perm = ncols ?ov" "mset perm = mset [0..<ncols ?ov]" "distinct perm"
      "set perm = {..<ncols ?ov}"
      "length (drop (nrows ?ov) perm) = ncols ?ov - nrows ?ov"
      "set (drop (nrows ?ov) perm) = {..<ncols ?ov} - set (take (nrows ?ov) perm)"
    by (elim exE conjE) (rule that)
  have r: "nrows ?ov = 2" "ncols ?ov = 3" by simp_all
  have "length (drop 2 perm) = 1" using q(5) by simp
  with p q(1-4,6) [unfolded r] show ?thesis by (intro exI [of _ perm] conjI)
qed

text \<open>
  Claim C2. When the overlap matrix has no more rows than columns and the solver keeps
  its promise on the negated matrix, the first \<open>K1\<close> entries of the result of
  \<open>find_permutation\<close> are distinct columns below \<open>K2\<close>, and no injection of the rows
  into the columns has a larger total overlap.
\<close>

theorem permutation_maximizes_overlap:
  assumes "compute_state_overlap z1 z2 K1 K2 = Inr ov"
    and "nrows ov \<le> ncols ov"
    and "solves_assignment lsa (negate ov)"
  shows "\<exists>perm. find_permutation lsa ul z1 z2 K1 K2 = Inr perm
      \<and> nrows ov \<le> length perm
      \<and> distinct (take (nrows ov) perm)
      \<and> (\<forall>k < nrows ov. perm ! k < ncols ov)
      \<and> (\<forall>f. inj_on f {..<nrows ov} \<and> f ` {..<nrows ov} \<subseteq> {..<ncols ov}
             \<longrightarrow> total_overlap ov f \<le> total_overlap ov (\<lambda>k. perm ! k))"
proof -
  let ?cols = "snd (lsa (negate ov))"
  let ?perm = "if nrows ov < ncols ov then ?cols @ ul (ncols ov) ?cols else ?cols"
  from assms(3) have rows: "fst (lsa (negate ov)) = [0..<nrows ov]"
    and a: "is_assignment (nrows ov) (ncols ov) ?cols"
    by (auto simp: solves_assignment_def split_beta)
  from a have len: "length ?cols = nrows ov" and dc: "distinct ?cols"
    and rng: "\<And>k. k < nrows ov \<Longrightarrow> ?cols ! k < ncols ov"
    by (auto simp: is_assignment_def list_all_length)
  have fp: "find_permutation lsa ul z1 z2 K1 K2 = Inr ?perm"
    using assms(1,2) rows by (rule find_permutation_Inr)
  have nth: "\<And>k. k < nrows ov \<Longrightarrow> ?perm ! k = ?cols ! k"
    using len by (simp add: nth_append)
  have 1: "nrows ov \<le> length ?perm" using len by simp
  have 2: "distinct (take (nrows ov) ?perm)" using len dc by simp
  have 3: "\<forall>k < nrows ov. ?perm ! k < ncols ov" using nth rng by simp
  have 4: "\<forall>f. inj_on f {..<nrows ov} \<and> f ` {..<nrows ov} \<subseteq> {..<ncols ov}
             \<longrightarrow> total_overlap ov f \<le> total_overlap ov (\<lambda>k. ?perm ! k)"
  proof (intro allI impI)
    fix f assume f: "inj_on f {..<nrows ov} \<and> f ` {..<nrows ov} \<subseteq> {..<ncols ov}"
    then have "total_overlap ov f \<le> total_overlap ov (\<lambda>k. ?cols ! k)"
      using solved_is_maximal [OF assms(1,3)] by blast
    also have "total_overlap ov (\<lambda>k. ?cols ! k) = total_overlap ov (\<lambda>k. ?perm ! k)"
      by (rule total_overlap_cong) (simp only: nth)
    finally show "total_overlap ov f \<le> total_overlap ov (\<lambda>k. ?perm ! k)" .
  qed
  from fp 1 2 3 4 show ?thesis by blast
qed

theorem permutation_maximizes_overlap_witness:
  "find_permutation exhaustive_lsa ascending_unused [0, 0, 1, 1] [1, 1, 0, 0] None None
     = Inr [1, 0]
   \<and> total_overlap \<lparr>nrows = 2, ncols = 2, cells = [[0, 2], [2, 0]]\<rparr> (\<lambda>k. k)
       \<le> total_overlap \<lparr>nrows = 2, ncols = 2, cells = [[0, 2], [2, 0]]\<rparr> (\<lambda>k. [1, 0] ! k)"
proof -
  let ?ov = "\<lparr>nrows = 2, ncols = 2, cells = [[0, 2], [2, 0]]\<rparr>"
  have h1: "compute_state_overlap [0, 0, 1, 1] [1, 1, 0, 0] None None = Inr ?ov"
    by code_simp
  have h2: "nrows ?ov \<le> ncols ?ov" by simp
  have h3: "solves_assignment exhaustive_lsa (negate ?ov)"
    by (rule exhaustive_lsa_solves) simp
  have e: "find_permutation exhaustive_lsa ascending_unused [0, 0, 1, 1] [1, 1, 0, 0] None None
     = Inr [1, 0]"
    by code_simp
  have f: "inj_on (\<lambda>k::nat. k) {..<nrows ?ov} \<and> (\<lambda>k. k) ` {..<nrows ?ov} \<subseteq> {..<ncols ?ov}"
    by simp
  from permutation_maximizes_overlap [OF h1 h2 h3, of ascending_unused]
  obtain perm where p: "find_permutation exhaustive_lsa ascending_unused
        [0, 0, 1, 1] [1, 1, 0, 0] None None = Inr perm"
    and best: "\<forall>f. inj_on f {..<nrows ?ov} \<and> f ` {..<nrows ?ov} \<subseteq> {..<ncols ?ov}
             \<longrightarrow> total_overlap ?ov f \<le> total_overlap ?ov (\<lambda>k. perm ! k)"
    by (elim exE conjE) (rule that)
  from p e have perm: "perm = [1, 0]" by simp
  from best have "inj_on (\<lambda>k::nat. k) {..<nrows ?ov} \<and> (\<lambda>k. k) ` {..<nrows ?ov} \<subseteq> {..<ncols ?ov}
      \<longrightarrow> total_overlap ?ov (\<lambda>k. k) \<le> total_overlap ?ov (\<lambda>k. perm ! k)"
    by (rule spec)
  from this f have "total_overlap ?ov (\<lambda>k. k) \<le> total_overlap ?ov (\<lambda>k. perm ! k)"
    by (rule mp)
  with e show ?thesis unfolding perm by (simp only: simp_thms)
qed



section \<open>Identical label sequences\<close>

lemma count_pair_nonneg: "0 \<le> count_pair z1 z2 k1 k2"
  unfolding count_pair_def by (rule sum_list_nonneg) auto

lemma count_pair_off_diagonal: "k \<noteq> j \<Longrightarrow> count_pair z z k j = 0"
  by (induction z) auto

lemma count_pair_diagonal_pos: "k \<in> set z \<Longrightarrow> 0 < count_pair z z k k"
proof (induction z)
  case Nil
  then show ?case by simp
next
  case (Cons a z)
  have "0 \<le> count_pair z z k k" by (rule count_pair_nonneg)
  with Cons show ?case by (cases "a = k") auto
qed

text \<open>
  For two copies of one sequence the overlap matrix is diagonal. Every optimal
  assignment then maps each label that occurs in \<open>z\<close> to itself; the labels below \<open>K\<close>
  that do not occur have rows of zeros, and how they are matched among themselves is
  left to the solver. With at most one such label the result is the identity.
\<close>

lemma identical_sequences_matched:
  assumes cso: "compute_state_overlap z z None None = Inr ov"
    and sol: "solves_assignment lsa (negate ov)"
  shows "\<exists>perm. find_permutation lsa ul z z None None = Inr perm
      \<and> mset perm = mset [0..<nrows ov]
      \<and> (\<forall>k < nrows ov. int k \<in> set z \<longrightarrow> perm ! k = k)
      \<and> ((\<forall>k < nrows ov. \<forall>j < nrows ov. int k \<notin> set z \<and> int j \<notin> set z \<longrightarrow> k = j)
           \<longrightarrow> perm = [0..<nrows ov])"
proof -
  let ?K = "nrows ov" and ?cols = "snd (lsa (negate ov))"
  let ?c = "\<lambda>k j. count_pair z z (int k) (int j)"
  from cso_dims [OF cso] have sq: "ncols ov = ?K" by simp
  from sol have rows: "fst (lsa (negate ov)) = [0..<?K]"
    and a: "is_assignment ?K ?K ?cols"
    by (auto simp: solves_assignment_def split_beta sq)
  from a have len: "length ?cols = ?K" and dist: "distinct ?cols"
    and rng: "\<And>k. k < ?K \<Longrightarrow> ?cols ! k < ?K"
    by (auto simp: is_assignment_def list_all_length)
  have fp: "find_permutation lsa ul z z None None = Inr ?cols"
    using find_permutation_Inr [where lsa = lsa and ul = ul, OF cso] rows sq by simp
  have ms: "mset ?cols = mset [0..<?K]"
    using a by (rule assignment_square_perm)
  have "total_overlap ov (\<lambda>k. k) \<le> total_overlap ov (\<lambda>k. ?cols ! k)"
    using cso sol by (rule solved_is_maximal) (simp_all add: sq)
  moreover have "total_overlap ov (\<lambda>k. k) = (\<Sum>k<?K. ?c k k)"
    unfolding total_overlap_def by (rule sum.cong) (simp_all add: cso_shape(3) [OF cso] sq)
  moreover have "total_overlap ov (\<lambda>k. ?cols ! k) = (\<Sum>k<?K. ?c k (?cols ! k))"
    unfolding total_overlap_def by (rule sum.cong) (simp_all add: cso_shape(3) [OF cso] sq rng)
  ultimately have "(\<Sum>k<?K. ?c k k - ?c k (?cols ! k)) \<le> 0"
    by (simp add: sum_subtractf)
  moreover have nonneg: "\<And>k. 0 \<le> ?c k k - ?c k (?cols ! k)"
  proof -
    fix k show "0 \<le> ?c k k - ?c k (?cols ! k)"
      using count_pair_nonneg [of z z "int k" "int k"]
      by (cases "?cols ! k = k") (simp_all add: count_pair_off_diagonal)
  qed
  ultimately have "(\<Sum>k<?K. ?c k k - ?c k (?cols ! k)) = 0"
    by (simp add: sum_nonneg order_antisym)
  then have zero: "\<And>k. k < ?K \<Longrightarrow> ?c k k - ?c k (?cols ! k) = 0"
    using nonneg by (simp add: sum_nonneg_eq_0_iff)
  have fixed: "\<forall>k < ?K. int k \<in> set z \<longrightarrow> ?cols ! k = k"
  proof (intro allI impI)
    fix k assume k: "k < ?K" and occ: "int k \<in> set z"
    show "?cols ! k = k"
    proof (rule ccontr)
      assume "?cols ! k \<noteq> k"
      then have "?c k (?cols ! k) = 0" by (simp add: count_pair_off_diagonal)
      with zero [OF k] count_pair_diagonal_pos [OF occ] show False by simp
    qed
  qed
  have ident: "(\<forall>k < ?K. \<forall>j < ?K. int k \<notin> set z \<and> int j \<notin> set z \<longrightarrow> k = j)
           \<longrightarrow> ?cols = [0..<?K]"
  proof
    assume one: "\<forall>k < ?K. \<forall>j < ?K. int k \<notin> set z \<and> int j \<notin> set z \<longrightarrow> k = j"
    have "\<And>k. k < ?K \<Longrightarrow> ?cols ! k = k"
    proof -
      fix k assume k: "k < ?K"
      show "?cols ! k = k"
      proof (cases "int k \<in> set z")
        case True
        with fixed k show ?thesis by simp
      next
        case False
        let ?j = "?cols ! k"
        have j: "?j < ?K" using k by (rule rng)
        show ?thesis
        proof (cases "int ?j \<in> set z")
          case True
          with fixed j have "?cols ! ?j = ?cols ! k" by simp
          with dist j k len show ?thesis by (simp add: nth_eq_iff_index_eq)
        next
          case absent: False
          with False one k j show ?thesis by blast
        qed
      qed
    qed
    then show "?cols = [0..<?K]"
      using len by (simp add: list_eq_iff_nth_eq)
  qed
  from fp ms fixed ident show ?thesis by blast
qed


text \<open>
  With two labels that do not occur, the promise of the solver does not fix the result:
  for \<open>z = [0, 3]\<close> the columns \<open>[0, 2, 1, 3]\<close> are as cheap as the identity, and a solver
  that returns them keeps its promise.
\<close>

lemma identical_sequences_tie:
  "solves_assignment (\<lambda>C. ([0, 1, 2, 3], [0, 2, 1, 3]))
     (negate \<lparr>nrows = 4, ncols = 4,
              cells = [[1, 0, 0, 0], [0, 0, 0, 0], [0, 0, 0, 0], [0, 0, 0, 1]]\<rparr>)
   \<and> compute_state_overlap [0, 3] [0, 3] None None
       = Inr \<lparr>nrows = 4, ncols = 4,
              cells = [[1, 0, 0, 0], [0, 0, 0, 0], [0, 0, 0, 0], [0, 0, 0, 1]]\<rparr>
   \<and> find_permutation (\<lambda>C. ([0, 1, 2, 3], [0, 2, 1, 3])) ascending_unused [0, 3] [0, 3] None None
       = Inr [0, 2, 1, 3]"
proof (intro conjI)
  let ?ov = "\<lparr>nrows = 4, ncols = 4,
              cells = [[1, 0, 0, 0], [0, 0, 0, 0], [0, 0, 0, 0], [0, 0, 0, 1]]\<rparr>"
  let ?C = "negate ?ov"
  have "solves_assignment exhaustive_lsa ?C"
    by (rule exhaustive_lsa_solves) simp
  then have best: "\<And>cs. is_assignment 4 4 cs \<Longrightarrow>
      assignment_cost (cells ?C) (snd (exhaustive_lsa ?C)) \<le> assignment_cost (cells ?C) cs"
    by (simp add: solves_assignment_def split_beta)
  have c1: "assignment_cost (cells ?C) (snd (exhaustive_lsa ?C)) = - 2"
    by code_simp
  have c2: "assignment_cost (cells ?C) [0, 2, 1, 3] = - 2"
    by code_simp
  have a: "is_assignment 4 4 [0, 2, 1, 3]"
    by (simp add: is_assignment_def)
  have r: "[0..<4] = [0, 1, 2, 3]" by (simp add: upt_rec)
  have eq: "assignment_cost (cells ?C) [0, 2, 1, 3]
      = assignment_cost (cells ?C) (snd (exhaustive_lsa ?C))"
    using c1 c2 by (simp only:)
  have best2: "\<forall>cs. is_assignment 4 4 cs \<longrightarrow>
      assignment_cost (cells ?C) [0, 2, 1, 3] \<le> assignment_cost (cells ?C) cs"
    using best by (simp only: eq) blast
  have nr: "nrows ?C = 4" "ncols ?C = 4" by simp_all
  show "solves_assignment (\<lambda>C. ([0, 1, 2, 3], [0, 2, 1, 3])) ?C"
    unfolding solves_assignment_def nr prod.case r using a best2 by blast
  show "compute_state_overlap [0, 3] [0, 3] None None = Inr ?ov"
    by code_simp
  show "find_permutation (\<lambda>C. ([0, 1, 2, 3], [0, 2, 1, 3])) ascending_unused [0, 3] [0, 3] None None
       = Inr [0, 2, 1, 3]"
    by code_simp
qed

section \<open>The optimizer\<close>

text \<open>
  Claim C1 says that the optimizer takes the bound \<open>numIters\<close> as an input and stops
  after at most that many iterations. The function has no such parameter: with the
  globals of util.py every call fails with NameError when \<open>range(num_iters)\<close> is
  evaluated, before the first gradient is computed.
\<close>

theorem adam_num_iters_unbound:
  "adam_with_convergence_check util_globals grad x callback step_size b1 b2 eps tol w
     = Inl NameError"
  by (simp add: adam_with_convergence_check_def util_globals_def)

lemma broadcast2_same:
  "length a = length b \<Longrightarrow> broadcast2 f a b = Inr (map2 f a b)"
  by (simp add: broadcast2_def)

lemma first_moment_same:
  "length g = length m \<Longrightarrow>
   first_moment b1 g m = Inr (map2 (\<lambda>gk mk. (1 - b1) * gk + b1 * mk) g m)"
  by (auto simp: first_moment_def broadcast2_same zip_map_map)

lemma second_moment_same:
  "length g = length v \<Longrightarrow>
   second_moment b2 g v = Inr (map2 (\<lambda>gk vk. (1 - b2) * gk ^ 2 + b2 * vk) g v)"
  by (auto simp: second_moment_def broadcast2_same zip_map_map)

lemma step_of_same:
  "length mhat = length vhat \<Longrightarrow>
   step_of step_size eps mhat vhat =
     Inr (map2 (\<lambda>mk vk. - step_size * mk / (sqrt vk + eps)) mhat vhat)"
  by (auto simp: step_of_def broadcast2_same zip_map_map)

lemma adam_update_same:
  assumes "length x = n" "length m = n" "length v = n" "length g = n"
  shows "adam_update step_size b1 b2 eps i g (x, m, v) =
     (let m' = map2 (\<lambda>gk mk. (1 - b1) * gk + b1 * mk) g m;
          v' = map2 (\<lambda>gk vk. (1 - b2) * gk ^ 2 + b2 * vk) g v;
          dx = map2 (\<lambda>mk vk. - step_size * mk / (sqrt vk + eps))
                 (bias_correct b1 i m') (bias_correct b2 i v')
      in Inr (map2 (+) x dx, m', v', dx))"
  using assms
  by (simp add: adam_update_def first_moment_same second_moment_same step_of_same
      broadcast2_same bias_correct_def Let_def)


lemma adam_one_iteration:
  assumes "glb ''num_iters'' = Some 1" and "length (grad x 0) = length x"
  shows "adam_with_convergence_check glb grad x callback step_size b1 b2 eps tol w =
     Inr (map2 (\<lambda>xk gk. xk + - step_size * (((1 - b1) * gk) / (1 - b1))
                             / (sqrt (((1 - b2) * gk ^ 2) / (1 - b2)) + eps)) x (grad x 0),
          case callback of None \<Rightarrow> w | Some cb \<Rightarrow> cb x 0 (grad x 0) w)"
proof -
  let ?z = "replicate (length x) (0::real)"
  let ?g = "grad x 0"
  have up: "adam_update step_size b1 b2 eps 0 ?g (x, ?z, ?z) =
     (let m' = map2 (\<lambda>gk mk. (1 - b1) * gk + b1 * mk) ?g ?z;
          v' = map2 (\<lambda>gk vk. (1 - b2) * gk ^ 2 + b2 * vk) ?g ?z;
          dx = map2 (\<lambda>mk vk. - step_size * mk / (sqrt vk + eps))
                 (bias_correct b1 0 m') (bias_correct b2 0 v')
      in Inr (map2 (+) x dx, m', v', dx))"
    by (rule adam_update_same [of x "length x"]) (simp_all add: assms)
  have m': "map2 (\<lambda>gk mk. (1 - b1) * gk + b1 * mk) ?g ?z = map (\<lambda>gk. (1 - b1) * gk) ?g"
    using assms(2) by (auto simp: list_eq_iff_nth_eq)
  have v': "map2 (\<lambda>gk vk. (1 - b2) * gk ^ 2 + b2 * vk) ?g ?z = map (\<lambda>gk. (1 - b2) * gk ^ 2) ?g"
    using assms(2) by (auto simp: list_eq_iff_nth_eq)
  have x': "map2 (+) x (map2 (\<lambda>mk vk. - step_size * mk / (sqrt vk + eps))
        (bias_correct b1 0 (map (\<lambda>gk. (1 - b1) * gk) ?g))
        (bias_correct b2 0 (map (\<lambda>gk. (1 - b2) * gk ^ 2) ?g)))
     = map2 (\<lambda>xk gk. xk + - step_size * (((1 - b1) * gk) / (1 - b1))
                             / (sqrt (((1 - b2) * gk ^ 2) / (1 - b2)) + eps)) x ?g"
    using assms(2) by (auto simp: list_eq_iff_nth_eq bias_correct_def)
  have up2: "adam_update step_size b1 b2 eps 0 ?g (x, ?z, ?z) =
     Inr (map2 (\<lambda>xk gk. xk + - step_size * (((1 - b1) * gk) / (1 - b1))
                             / (sqrt (((1 - b2) * gk ^ 2) / (1 - b2)) + eps)) x ?g,
          map (\<lambda>gk. (1 - b1) * gk) ?g, map (\<lambda>gk. (1 - b2) * gk ^ 2) ?g,
          map2 (\<lambda>mk vk. - step_size * mk / (sqrt vk + eps))
            (bias_correct b1 0 (map (\<lambda>gk. (1 - b1) * gk) ?g))
            (bias_correct b2 0 (map (\<lambda>gk. (1 - b2) * gk ^ 2) ?g)))"
    using up unfolding Let_def m' v' x' .
  have "adam_loop grad callback step_size b1 b2 eps tol [0] (x, ?z, ?z) w =
     Inr (map2 (\<lambda>xk gk. xk + - step_size * (((1 - b1) * gk) / (1 - b1))
                             / (sqrt (((1 - b2) * gk ^ 2) / (1 - b2)) + eps)) x ?g,
          case callback of None \<Rightarrow> w | Some cb \<Rightarrow> cb x 0 ?g w)"
    unfolding adam_loop.simps Let_def fst_conv up2 by (simp only: sum.case prod.case if_cancel fst_conv)
  then show ?thesis
    unfolding adam_with_convergence_check_def Let_def assms(1) by simp
qed

text \<open>One update, componentwise, in the terms of the code (\<open>mhat\<close> and \<open>vhat\<close> by \<open>bias_correct\<close>).\<close>

lemma adam_update_componentwise:
  assumes "length x = n" and "length m = n" and "length v = n" and "length g = n"
  shows "(\<exists>x' m' v' dx.
        adam_update step_size b1 b2 eps i g (x, m, v) = Inr (x', m', v', dx)
      \<and> length x' = n \<and> length m' = n \<and> length v' = n \<and> length dx = n
      \<and> (\<forall>k<n. m' ! k = (1 - b1) * g ! k + b1 * m ! k
             \<and> v' ! k = (1 - b2) * (g ! k) ^ 2 + b2 * v ! k
             \<and> bias_correct b1 i m' ! k = m' ! k / (1 - b1 ^ (i + 1))
             \<and> bias_correct b2 i v' ! k = v' ! k / (1 - b2 ^ (i + 1))
             \<and> dx ! k = - step_size * bias_correct b1 i m' ! k
                          / (sqrt (bias_correct b2 i v' ! k) + eps)
             \<and> x' ! k = x ! k + dx ! k)
      \<and> (i = 0 \<and> m = replicate n 0 \<and> v = replicate n 0 \<longrightarrow>
           (\<forall>k<n. bias_correct b1 i m' ! k = ((1 - b1) * g ! k) / (1 - b1)
                \<and> bias_correct b2 i v' ! k = ((1 - b2) * (g ! k) ^ 2) / (1 - b2))))
    \<and> (glb ''num_iters'' = Some 1 \<and> g = grad x 0 \<longrightarrow>
         (\<exists>x1. adam_with_convergence_check glb grad x callback step_size b1 b2 eps tol w
                 = Inr (x1, case callback of None \<Rightarrow> w | Some cb \<Rightarrow> cb x 0 g w)
             \<and> length x1 = n
             \<and> (\<forall>k<n. x1 ! k = x ! k + - step_size * (((1 - b1) * g ! k) / (1 - b1))
                                   / (sqrt (((1 - b2) * (g ! k) ^ 2) / (1 - b2)) + eps))))"
proof (intro conjI impI)
  let ?m' = "map2 (\<lambda>gk mk. (1 - b1) * gk + b1 * mk) g m"
  let ?v' = "map2 (\<lambda>gk vk. (1 - b2) * gk ^ 2 + b2 * vk) g v"
  let ?dx = "map2 (\<lambda>mk vk. - step_size * mk / (sqrt vk + eps))
                 (bias_correct b1 i ?m') (bias_correct b2 i ?v')"
  let ?x' = "map2 (+) x ?dx"
  have up: "adam_update step_size b1 b2 eps i g (x, m, v) = Inr (?x', ?m', ?v', ?dx)"
    using adam_update_same [OF assms] by (simp add: Let_def)
  have len: "length ?x' = n" "length ?m' = n" "length ?v' = n" "length ?dx = n"
    using assms by (simp_all add: bias_correct_def)
  have rec: "\<forall>k<n. ?m' ! k = (1 - b1) * g ! k + b1 * m ! k
             \<and> ?v' ! k = (1 - b2) * (g ! k) ^ 2 + b2 * v ! k
             \<and> bias_correct b1 i ?m' ! k = ?m' ! k / (1 - b1 ^ (i + 1))
             \<and> bias_correct b2 i ?v' ! k = ?v' ! k / (1 - b2 ^ (i + 1))
             \<and> ?dx ! k = - step_size * bias_correct b1 i ?m' ! k
                          / (sqrt (bias_correct b2 i ?v' ! k) + eps)
             \<and> ?x' ! k = x ! k + ?dx ! k"
    using assms by (simp add: bias_correct_def)
  have zero: "i = 0 \<and> m = replicate n 0 \<and> v = replicate n 0 \<longrightarrow>
           (\<forall>k<n. bias_correct b1 i ?m' ! k = ((1 - b1) * g ! k) / (1 - b1)
                \<and> bias_correct b2 i ?v' ! k = ((1 - b2) * (g ! k) ^ 2) / (1 - b2))"
    using assms by (auto simp: bias_correct_def)
  from up len rec zero
  show "\<exists>x' m' v' dx.
        adam_update step_size b1 b2 eps i g (x, m, v) = Inr (x', m', v', dx)
      \<and> length x' = n \<and> length m' = n \<and> length v' = n \<and> length dx = n
      \<and> (\<forall>k<n. m' ! k = (1 - b1) * g ! k + b1 * m ! k
             \<and> v' ! k = (1 - b2) * (g ! k) ^ 2 + b2 * v ! k
             \<and> bias_correct b1 i m' ! k = m' ! k / (1 - b1 ^ (i + 1))
             \<and> bias_correct b2 i v' ! k = v' ! k / (1 - b2 ^ (i + 1))
             \<and> dx ! k = - step_size * bias_correct b1 i m' ! k
                          / (sqrt (bias_correct b2 i v' ! k) + eps)
             \<and> x' ! k = x ! k + dx ! k)
      \<and> (i = 0 \<and> m = replicate n 0 \<and> v = replicate n 0 \<longrightarrow>
           (\<forall>k<n. bias_correct b1 i m' ! k = ((1 - b1) * g ! k) / (1 - b1)
                \<and> bias_correct b2 i v' ! k = ((1 - b2) * (g ! k) ^ 2) / (1 - b2)))"
    by (intro exI [of _ ?x'] exI [of _ ?m'] exI [of _ ?v'] exI [of _ ?dx] conjI)
next
  assume a: "glb ''num_iters'' = Some 1 \<and> g = grad x 0"
  then have num: "glb ''num_iters'' = Some 1" and geq: "g = grad x 0" by simp_all
  have g: "length (grad x 0) = length x" using assms geq by simp
  let ?x1 = "map2 (\<lambda>xk gk. xk + - step_size * (((1 - b1) * gk) / (1 - b1))
                             / (sqrt (((1 - b2) * gk ^ 2) / (1 - b2)) + eps)) x g"
  have "adam_with_convergence_check glb grad x callback step_size b1 b2 eps tol w
      = Inr (?x1, case callback of None \<Rightarrow> w | Some cb \<Rightarrow> cb x 0 g w)"
    unfolding geq using num g by (rule adam_one_iteration)
  moreover have "length ?x1 = n" using assms by simp
  moreover have "\<forall>k<n. ?x1 ! k = x ! k + - step_size * (((1 - b1) * g ! k) / (1 - b1))
                                   / (sqrt (((1 - b2) * (g ! k) ^ 2) / (1 - b2)) + eps)"
    using assms by simp
  ultimately show "\<exists>x1. adam_with_convergence_check glb grad x callback step_size b1 b2 eps tol w
                 = Inr (x1, case callback of None \<Rightarrow> w | Some cb \<Rightarrow> cb x 0 g w)
             \<and> length x1 = n
             \<and> (\<forall>k<n. x1 ! k = x ! k + - step_size * (((1 - b1) * g ! k) / (1 - b1))
                                   / (sqrt (((1 - b2) * (g ! k) ^ 2) / (1 - b2)) + eps))"
    by (intro exI [of _ ?x1] conjI)
qed


lemma adam_update_spec:
  assumes "length x = n" "length m = n" "length v = n" "length g = n"
  shows "adam_update step_size b1 b2 eps i g (x, m, v)
     = Inr (spec_step step_size b1 b2 eps i g (x, m, v))"
  using adam_update_same [OF assms]
  by (simp add: spec_step_def bias_correct_def Let_def)

lemma spec_step_lengths:
  assumes "length x = n" "length m = n" "length v = n" "length g = n"
    and "spec_step step_size b1 b2 eps i g (x, m, v) = (x', m', v', dx)"
  shows "length x' = n \<and> length m' = n \<and> length v' = n \<and> length dx = n"
  using assms by (auto simp: spec_step_def Let_def)

lemma spec_state_lengths:
  assumes "\<forall>y j. length y = length x \<longrightarrow> length (grad y j) = length x"
  shows "case spec_state grad step_size b1 b2 eps x k of
           (xk, mk, vk) \<Rightarrow> length xk = length x \<and> length mk = length x \<and> length vk = length x"
proof (induction k)
  case 0
  then show ?case by simp
next
  case (Suc k)
  obtain xk mk vk where s: "spec_state grad step_size b1 b2 eps x k = (xk, mk, vk)"
    by (cases "spec_state grad step_size b1 b2 eps x k")
  with Suc have l: "length xk = length x" "length mk = length x" "length vk = length x"
    by simp_all
  with assms have g: "length (grad xk k) = length x" by simp
  obtain x' m' v' dx where
    st: "spec_step step_size b1 b2 eps k (grad xk k) (xk, mk, vk) = (x', m', v', dx)"
    by (cases "spec_step step_size b1 b2 eps k (grad xk k) (xk, mk, vk)")
  from spec_step_lengths [OF l g st] show ?case
    by (simp add: s st Let_def)
qed

lemma adam_loop_step:
  assumes shape: "\<forall>y j. length y = length x \<longrightarrow> length (grad y j) = length x"
  shows "adam_loop grad callback step_size b1 b2 eps tol (k # rest)
           (spec_state grad step_size b1 b2 eps x k)
           (spec_world grad callback step_size b1 b2 eps x w k)
       = (if converged (spec_dx grad step_size b1 b2 eps x k) tol
          then Inr (fst (spec_state grad step_size b1 b2 eps x (Suc k)),
                    spec_world grad callback step_size b1 b2 eps x w (Suc k))
          else adam_loop grad callback step_size b1 b2 eps tol rest
                 (spec_state grad step_size b1 b2 eps x (Suc k))
                 (spec_world grad callback step_size b1 b2 eps x w (Suc k)))"
proof -
  let ?s = "spec_state grad step_size b1 b2 eps x k"
  obtain xk mk vk where s: "?s = (xk, mk, vk)" by (cases ?s)
  from spec_state_lengths [OF shape, of step_size b1 b2 eps k] s
  have l: "length xk = length x" "length mk = length x" "length vk = length x"
    by simp_all
  with shape have g: "length (grad xk k) = length x" by simp
  obtain x' m' v' dx where
    st: "spec_step step_size b1 b2 eps k (grad xk k) (xk, mk, vk) = (x', m', v', dx)"
    by (cases "spec_step step_size b1 b2 eps k (grad xk k) (xk, mk, vk)")
  have up: "adam_update step_size b1 b2 eps k (grad xk k) (xk, mk, vk) = Inr (x', m', v', dx)"
    using adam_update_spec [OF l g] st by simp
  have dx: "spec_dx grad step_size b1 b2 eps x k = dx"
    by (simp add: spec_dx_def s st Let_def)
  have next_s: "spec_state grad step_size b1 b2 eps x (Suc k) = (x', m', v')"
    by (simp add: s st Let_def)
  have next_w: "spec_world grad callback step_size b1 b2 eps x w (Suc k)
      = (case callback of None \<Rightarrow> spec_world grad callback step_size b1 b2 eps x w k
         | Some cb \<Rightarrow> cb xk k (grad xk k) (spec_world grad callback step_size b1 b2 eps x w k))"
    by (simp add: s Let_def)
  show ?thesis
    unfolding s next_s next_w dx by (simp add: up Let_def split: option.split)
qed

lemma adam_loop_reaches:
  assumes shape: "\<forall>y j. length y = length x \<longrightarrow> length (grad y j) = length x"
    and "k \<le> N"
    and "\<forall>j<k. \<not> converged (spec_dx grad step_size b1 b2 eps x j) tol"
  shows "adam_loop grad callback step_size b1 b2 eps tol [0..<N]
           (x, replicate (length x) 0, replicate (length x) 0) w
       = adam_loop grad callback step_size b1 b2 eps tol [k..<N]
           (spec_state grad step_size b1 b2 eps x k)
           (spec_world grad callback step_size b1 b2 eps x w k)"
  using assms(2,3)
proof (induction k)
  case 0
  then show ?case by simp
next
  case (Suc k)
  from Suc.prems(2) have nc: "\<not> converged (spec_dx grad step_size b1 b2 eps x k) tol"
    by blast
  from Suc.prems have "k < N" by simp
  then have idx: "[k..<N] = k # [Suc k..<N]" by (rule upt_conv_Cons)
  have "adam_loop grad callback step_size b1 b2 eps tol [0..<N]
           (x, replicate (length x) 0, replicate (length x) 0) w
      = adam_loop grad callback step_size b1 b2 eps tol [k..<N]
           (spec_state grad step_size b1 b2 eps x k)
           (spec_world grad callback step_size b1 b2 eps x w k)"
    using Suc by simp
  also have "\<dots> = adam_loop grad callback step_size b1 b2 eps tol [Suc k..<N]
           (spec_state grad step_size b1 b2 eps x (Suc k))
           (spec_world grad callback step_size b1 b2 eps x w (Suc k))"
    unfolding idx adam_loop_step [OF shape] using nc by (simp only: if_False)
  finally show ?case .
qed

lemma spec_state_componentwise:
  assumes shape: "\<forall>y j. length y = length x \<longrightarrow> length (grad y j) = length x"
  shows "\<exists>xk mk vk x' m' v'.
        spec_state grad step_size b1 b2 eps x k = (xk, mk, vk)
      \<and> spec_state grad step_size b1 b2 eps x (Suc k) = (x', m', v')
      \<and> (k = 0 \<longrightarrow> xk = x \<and> mk = replicate (length x) 0 \<and> vk = replicate (length x) 0)
      \<and> (\<forall>c<length x.
            m' ! c = (1 - b1) * grad xk k ! c + b1 * mk ! c
          \<and> v' ! c = (1 - b2) * (grad xk k ! c) ^ 2 + b2 * vk ! c
          \<and> spec_dx grad step_size b1 b2 eps x k ! c
               = - step_size * (m' ! c / (1 - b1 ^ (k + 1)))
                   / (sqrt (v' ! c / (1 - b2 ^ (k + 1))) + eps)
          \<and> x' ! c = xk ! c + spec_dx grad step_size b1 b2 eps x k ! c)"
proof -
  let ?s = "spec_state grad step_size b1 b2 eps x k"
  obtain xk mk vk where s: "?s = (xk, mk, vk)" by (cases ?s)
  from spec_state_lengths [OF shape, of step_size b1 b2 eps k] s
  have l: "length xk = length x" "length mk = length x" "length vk = length x"
    by simp_all
  with shape have g: "length (grad xk k) = length x" by simp
  let ?m' = "map2 (\<lambda>gk mk. (1 - b1) * gk + b1 * mk) (grad xk k) mk"
  let ?v' = "map2 (\<lambda>gk vk. (1 - b2) * gk ^ 2 + b2 * vk) (grad xk k) vk"
  let ?dx = "map2 (\<lambda>mh vh. - step_size * mh / (sqrt vh + eps))
      (map (\<lambda>mk. mk / (1 - b1 ^ (k + 1))) ?m') (map (\<lambda>vk. vk / (1 - b2 ^ (k + 1))) ?v')"
  have st: "spec_step step_size b1 b2 eps k (grad xk k) (xk, mk, vk)
      = (map2 (+) xk ?dx, ?m', ?v', ?dx)"
    by (simp add: spec_step_def Let_def)
  have next_s: "spec_state grad step_size b1 b2 eps x (Suc k) = (map2 (+) xk ?dx, ?m', ?v')"
    by (simp only: spec_state.simps Let_def s fst_conv st prod.case)
  have dx: "spec_dx grad step_size b1 b2 eps x k = ?dx"
    by (simp only: spec_dx_def Let_def s fst_conv st prod.case)
  have zero: "k = 0 \<longrightarrow> xk = x \<and> mk = replicate (length x) 0 \<and> vk = replicate (length x) 0"
    using s by auto
  have comp: "\<forall>c<length x.
            ?m' ! c = (1 - b1) * grad xk k ! c + b1 * mk ! c
          \<and> ?v' ! c = (1 - b2) * (grad xk k ! c) ^ 2 + b2 * vk ! c
          \<and> ?dx ! c = - step_size * (?m' ! c / (1 - b1 ^ (k + 1)))
                   / (sqrt (?v' ! c / (1 - b2 ^ (k + 1))) + eps)
          \<and> map2 (+) xk ?dx ! c = xk ! c + ?dx ! c"
    using l g by simp
  from s next_s zero comp show ?thesis
    unfolding dx by (intro exI conjI)
qed


text \<open>
  Claim C7. The function reaches the loop with \<open>m\<close> and \<open>v\<close> zero vectors (or fails on
  the unbound \<open>num_iters\<close>). When the gradient has the dimension of \<open>x\<close> and no step before
  index \<open>k\<close> met the convergence test, the loop over \<open>range(N)\<close> arrives at iteration \<open>k\<close>
  in the state \<open>k\<close> steps of the recurrence give, so every iteration, not only the first,
  starts from the moments the previous one left. The run returns the \<open>x\<close> of that
  sequence, after \<open>N\<close> steps or after the first step that meets the test. Componentwise,
  step \<open>k\<close> is: \<open>m\<close> becomes \<open>(1 - beta1) g + beta1 m\<close>, \<open>v\<close> becomes
  \<open>(1 - beta2) g^2 + beta2 v\<close>, \<open>dx = -stepSize * mhat / (sqrt(vhat) + epsilon)\<close> with
  \<open>mhat = m / (1 - beta1^(k+1))\<close> and \<open>vhat = v / (1 - beta2^(k+1))\<close>, and \<open>x\<close> becomes
  \<open>x + dx\<close>.
\<close>

theorem adam_iterations_follow_recurrence:
  assumes "\<forall>y j. length y = length x \<longrightarrow> length (grad y j) = length x"
    and "k \<le> N"
    and "\<forall>j<k. \<not> converged (spec_dx grad step_size b1 b2 eps x j) tol"
  shows "adam_with_convergence_check glb grad x callback step_size b1 b2 eps tol w
         = (case glb ''num_iters'' of
              None \<Rightarrow> Inl NameError
            | Some n \<Rightarrow> adam_loop grad callback step_size b1 b2 eps tol [0..<nat n]
                          (x, replicate (length x) 0, replicate (length x) 0) w)
    \<and> adam_loop grad callback step_size b1 b2 eps tol [0..<N]
           (x, replicate (length x) 0, replicate (length x) 0) w
         = adam_loop grad callback step_size b1 b2 eps tol [k..<N]
             (spec_state grad step_size b1 b2 eps x k)
             (spec_world grad callback step_size b1 b2 eps x w k)
    \<and> (k = N \<longrightarrow>
          adam_loop grad callback step_size b1 b2 eps tol [0..<N]
             (x, replicate (length x) 0, replicate (length x) 0) w
           = Inr (fst (spec_state grad step_size b1 b2 eps x N),
                  spec_world grad callback step_size b1 b2 eps x w N))
    \<and> (k < N \<and> converged (spec_dx grad step_size b1 b2 eps x k) tol \<longrightarrow>
          adam_loop grad callback step_size b1 b2 eps tol [0..<N]
             (x, replicate (length x) 0, replicate (length x) 0) w
           = Inr (fst (spec_state grad step_size b1 b2 eps x (Suc k)),
                  spec_world grad callback step_size b1 b2 eps x w (Suc k)))
    \<and> (\<exists>xk mk vk x' m' v'.
          spec_state grad step_size b1 b2 eps x k = (xk, mk, vk)
        \<and> spec_state grad step_size b1 b2 eps x (Suc k) = (x', m', v')
        \<and> (k = 0 \<longrightarrow> xk = x \<and> mk = replicate (length x) 0 \<and> vk = replicate (length x) 0)
        \<and> (\<forall>c<length x.
              m' ! c = (1 - b1) * grad xk k ! c + b1 * mk ! c
            \<and> v' ! c = (1 - b2) * (grad xk k ! c) ^ 2 + b2 * vk ! c
            \<and> spec_dx grad step_size b1 b2 eps x k ! c
                 = - step_size * (m' ! c / (1 - b1 ^ (k + 1)))
                     / (sqrt (v' ! c / (1 - b2 ^ (k + 1))) + eps)
            \<and> x' ! c = xk ! c + spec_dx grad step_size b1 b2 eps x k ! c))"
proof (intro conjI impI)
  let ?init = "(x, replicate (length x) (0::real), replicate (length x) (0::real))"
  show "adam_with_convergence_check glb grad x callback step_size b1 b2 eps tol w
         = (case glb ''num_iters'' of
              None \<Rightarrow> Inl NameError
            | Some n \<Rightarrow> adam_loop grad callback step_size b1 b2 eps tol [0..<nat n] ?init w)"
    by (simp add: adam_with_convergence_check_def Let_def)
  show reach: "adam_loop grad callback step_size b1 b2 eps tol [0..<N] ?init w
         = adam_loop grad callback step_size b1 b2 eps tol [k..<N]
             (spec_state grad step_size b1 b2 eps x k)
             (spec_world grad callback step_size b1 b2 eps x w k)"
    using assms by (rule adam_loop_reaches)
  show "adam_loop grad callback step_size b1 b2 eps tol [0..<N] ?init w
           = Inr (fst (spec_state grad step_size b1 b2 eps x N),
                  spec_world grad callback step_size b1 b2 eps x w N)"
    if "k = N"
    using reach that by simp
  show "adam_loop grad callback step_size b1 b2 eps tol [0..<N] ?init w
           = Inr (fst (spec_state grad step_size b1 b2 eps x (Suc k)),
                  spec_world grad callback step_size b1 b2 eps x w (Suc k))"
    if c: "k < N \<and> converged (spec_dx grad step_size b1 b2 eps x k) tol"
  proof -
    from c have idx: "[k..<N] = k # [Suc k..<N]" by (simp add: upt_conv_Cons)
    show ?thesis
      unfolding reach idx adam_loop_step [OF assms(1)] using c by (simp only: if_True)
  qed
  show "\<exists>xk mk vk x' m' v'.
          spec_state grad step_size b1 b2 eps x k = (xk, mk, vk)
        \<and> spec_state grad step_size b1 b2 eps x (Suc k) = (x', m', v')
        \<and> (k = 0 \<longrightarrow> xk = x \<and> mk = replicate (length x) 0 \<and> vk = replicate (length x) 0)
        \<and> (\<forall>c<length x.
              m' ! c = (1 - b1) * grad xk k ! c + b1 * mk ! c
            \<and> v' ! c = (1 - b2) * (grad xk k ! c) ^ 2 + b2 * vk ! c
            \<and> spec_dx grad step_size b1 b2 eps x k ! c
                 = - step_size * (m' ! c / (1 - b1 ^ (k + 1)))
                     / (sqrt (v' ! c / (1 - b2 ^ (k + 1))) + eps)
            \<and> x' ! c = xk ! c + spec_dx grad step_size b1 b2 eps x k ! c)"
    using assms(1) by (rule spec_state_componentwise)
qed


theorem adam_iterations_follow_recurrence_witness:
  "adam_with_convergence_check [''num_iters'' \<mapsto> 2] (\<lambda>x i. [1]) [0] None 1 (1/2) 0 0 0 ()
     = Inr ([- 2], ())
   \<and> spec_state (\<lambda>x i. [1]) 1 (1/2) 0 0 [0] 2 = ([- 2], [3/4], [1])"
proof -
  let ?g = "\<lambda>(x::real list) (i::nat). [1::real]"
  have s1: "spec_state ?g 1 (1/2) 0 0 [0] (Suc 0) = ([- 1], [1/2], [1])"
    by (simp add: spec_step_def Let_def)
  have s2: "spec_state ?g 1 (1/2) 0 0 [0] (Suc (Suc 0)) = ([- 2], [3/4], [1])"
    unfolding spec_state.simps(2) [of _ _ _ _ _ _ "Suc 0"] s1
    by (simp add: spec_step_def Let_def)
  have s2': "spec_state ?g 1 (1/2) 0 0 [0] 2 = ([- 2], [3/4], [1])"
    using s2 by (simp only: numeral_2_eq_2)
  have d0: "spec_dx ?g 1 (1/2) 0 0 [0] 0 = [- 1]"
    by (simp add: spec_dx_def spec_step_def Let_def)
  have d1: "spec_dx ?g 1 (1/2) 0 0 [0] (Suc 0) = [- 1]"
    unfolding spec_dx_def s1 by (simp add: spec_step_def Let_def)
  have h1: "\<forall>y j. length y = length [0::real] \<longrightarrow> length (?g y j) = length [0::real]"
    by simp
  have h2: "(2::nat) \<le> 2" by simp
  have h3: "\<forall>j<2. \<not> converged (spec_dx ?g 1 (1/2) 0 0 [0] j) 0"
  proof (intro allI impI)
    fix j :: nat assume "j < 2"
    then have "j = 0 \<or> j = Suc 0" by (rule less_2_cases)
    then show "\<not> converged (spec_dx ?g 1 (1/2) 0 0 [0] j) 0"
      by (auto simp: d0 d1 converged_def)
  qed
  note t = adam_iterations_follow_recurrence [OF h1 h2 h3,
      where glb = "[''num_iters'' \<mapsto> 2]" and callback = None and w = "()"]
  from t have f: "adam_with_convergence_check [''num_iters'' \<mapsto> 2] ?g [0] None 1 (1/2) 0 0 0 ()
      = adam_loop ?g None 1 (1/2) 0 0 0 [0..<2] ([0], [0], [0]) ()"
    by simp
  from t have "adam_loop ?g None 1 (1/2) 0 0 0 [0..<2]
        ([0], replicate (length [0::real]) 0, replicate (length [0::real]) 0) ()
      = Inr (fst (spec_state ?g 1 (1/2) 0 0 [0] 2), spec_world ?g None 1 (1/2) 0 0 [0] () 2)"
    by blast
  then have l: "adam_loop ?g None 1 (1/2) 0 0 0 [0..<2] ([0], [0], [0]) () = Inr ([- 2], ())"
    by (simp add: s2')
  from f l s2' show ?thesis by simp
qed

text \<open>
  With \<open>num_iters\<close> bound, the loop does run at most that many iterations: a callback
  that counts its calls is called at most once per index.
\<close>

lemma adam_loop_counts:
  "adam_loop grad (Some (\<lambda>x i g c. Suc c)) step_size b1 b2 eps tol idx s c = Inr (x', c')
     \<Longrightarrow> c' \<le> c + length idx"
proof (induction idx arbitrary: s c)
  case Nil
  then show ?case by simp
next
  case (Cons i idx)
  show ?case
  proof (cases "adam_update step_size b1 b2 eps i (grad (fst s) i) s")
    case (Inl e)
    with Cons.prems show ?thesis by (simp add: Let_def)
  next
    case (Inr r)
    obtain x1 m1 v1 dx where r: "r = (x1, m1, v1, dx)" by (cases r)
    show ?thesis
    proof (cases "converged dx tol")
      case True
      with Cons.prems Inr r show ?thesis by (simp add: Let_def)
    next
      case False
      with Cons.prems Inr r
      have "adam_loop grad (Some (\<lambda>x i g c. Suc c)) step_size b1 b2 eps tol idx (x1, m1, v1) (Suc c)
          = Inr (x', c')"
        by (simp add: Let_def)
      from Cons.IH [OF this] show ?thesis by simp
    qed
  qed
qed

lemma adam_iterations_bounded:
  assumes "glb ''num_iters'' = Some num_iters"
    and "adam_with_convergence_check glb grad x (Some (\<lambda>x i g c. Suc c)) step_size b1 b2 eps tol 0
           = Inr (x', c')"
  shows "int c' \<le> max 0 num_iters"
proof -
  from assms have "adam_loop grad (Some (\<lambda>x i g c. Suc c)) step_size b1 b2 eps tol
      [0..<nat num_iters] (x, replicate (length x) 0, replicate (length x) 0) 0 = Inr (x', c')"
    by (simp add: adam_with_convergence_check_def Let_def)
  from adam_loop_counts [OF this] show ?thesis by simp
qed

section \<open>The random rotation\<close>

lemma upt2: "[0..<2] = [0, 1]" by (simp add: upt_rec)
lemma upt3: "[0..<3] = [0, 1, 2]" by (simp add: upt_rec)

lemma dot2:
  "dot 2 [[a, b], [c, d]] [[e, f], [g, h]]
     = [[a * e + b * g, a * f + b * h], [c * e + d * g, c * f + d * h]]"
  by (simp add: dot_def upt2)

lemma mat_T2: "mat_T 2 [[a, b], [c, d]] = [[a, c], [b, d]]"
  by (simp add: mat_T_def upt2)

lemma eye2: "eye 2 = [[1, 0], [0, 1]]"
  by (simp add: eye_def upt2)

lemma eye1: "eye 1 = [[1]]"
  by (simp add: eye_def)

lemma set_block2_zeros2: "set_block2 (zeros_sq 2) [[p, q], [r, s]] = [[p, q], [r, s]]"
  by (simp add: set_block2_def zeros_sq_def eval_nat_numeral)

lemma is_square2D:
  assumes "is_square 2 A"
  obtains a b c d where "A = [[a, b], [c, d]]"
proof -
  from assms have l: "length A = 2" and r: "\<forall>row \<in> set A. length row = 2"
    by (auto simp: is_square_def list_all_iff)
  from l obtain r1 r2 where A: "A = [r1, r2]"
    by (auto simp: length_Suc_conv eval_nat_numeral)
  with r have "length r1 = 2" "length r2 = 2" by simp_all
  then obtain a b c d where "r1 = [a, b]" "r2 = [c, d]"
    by (auto simp: length_Suc_conv eval_nat_numeral)
  with A that show thesis by simp
qed

lemma random_rotation_1: "random_rotation d 1 theta = Inr [[scale_draw d]]"
  by (simp add: random_rotation_def eye_def Let_def)

lemma is_orthogonal_1: "is_orthogonal 1 [[u]] \<longleftrightarrow> u ^ 2 = 1"
  by (simp add: is_orthogonal_def is_square_def dot_def mat_T_def eye_def power2_eq_square)


lemma is_orthogonal_2:
  "is_orthogonal 2 [[a, b], [c, d]] \<longleftrightarrow>
     a * a + b * b = 1 \<and> a * c + b * d = 0 \<and> c * a + d * b = 0 \<and> c * c + d * d = 1"
  by (simp add: is_orthogonal_def is_square_def dot2 mat_T2 eye2)

lemma random_rotation_2:
  "is_square 2 (qr_factor d) \<Longrightarrow>
   random_rotation d 2 theta =
     Inr (dot 2 (dot 2 (qr_factor d) (rotation2 (rotation_angle d theta))) (mat_T 2 (qr_factor d)))"
  by (simp add: random_rotation_def Let_def rotation2_def set_block2_zeros2)

lemma rotated_2:
  fixes a b c d C S :: real
  assumes q: "a * a + b * b = 1" "a * c + b * d = 0" "c * c + d * d = 1"
  shows "dot 2 (dot 2 [[a, b], [c, d]] [[C, - S], [S, C]]) (mat_T 2 [[a, b], [c, d]])
     = [[C, - ((a * d - b * c) * S)], [(a * d - b * c) * S, C]]"
proof -
  have 1: "(a * C + b * S) * a + (a * - S + b * C) * b = C"
    using q(1) by algebra
  have 2: "(a * C + b * S) * c + (a * - S + b * C) * d = - ((a * d - b * c) * S)"
    using q(2) by algebra
  have 3: "(c * C + d * S) * a + (c * - S + d * C) * b = (a * d - b * c) * S"
    using q(2) by algebra
  have 4: "(c * C + d * S) * c + (c * - S + d * C) * d = C"
    using q(3) by algebra
  show ?thesis by (simp only: dot2 mat_T2 1 2 3 4)
qed

lemma det_sq_2:
  fixes a b c d :: real
  assumes q: "a * a + b * b = 1" "a * c + b * d = 0" "c * c + d * d = 1"
  shows "(a * d - b * c) * (a * d - b * c) = 1"
proof -
  have "(a * d - b * c) * (a * d - b * c)
      = (a * a + b * b) * (c * c + d * d) - (a * c + b * d) * (a * c + b * d)"
    by algebra
  with q show ?thesis by simp
qed


lemma unit_cases:
  fixes e :: real
  assumes "e * e = 1"
  shows "e = 1 \<or> e = - 1"
proof -
  from assms have "(e - 1) * (e + 1) = 0" by algebra
  then show ?thesis by auto
qed

text \<open>
  Claim C9 says that for every \<open>n \<ge> 1\<close> the result is orthogonal. For \<open>n = 1\<close> the
  function returns the 1 by 1 matrix of a uniform draw from \<open>[0, 1)\<close>, which is not
  orthogonal.
\<close>

theorem random_rotation_1_counterexample:
  "random_rotation \<lparr>theta_draw = 0, scale_draw = 1/2, qr_factor = [[1]]\<rparr> 1 (Some 0)
     = Inr [[1/2]]
   \<and> \<not> is_orthogonal 1 [[1/2]]"
  using random_rotation_1 [of "\<lparr>theta_draw = 0, scale_draw = 1/2, qr_factor = [[1]]\<rparr>" "Some 0"]
    is_orthogonal_1 [of "1/2"]
  by (simp add: power2_eq_square)

lemma random_rotation_1_never_orthogonal:
  assumes "0 \<le> scale_draw d" and "scale_draw d < 1"
  shows "\<exists>R. random_rotation d 1 theta = Inr R \<and> \<not> is_orthogonal 1 R"
proof -
  from assms have "scale_draw d * scale_draw d < 1 * 1"
    by (intro mult_strict_mono') simp_all
  then have "(scale_draw d) ^ 2 \<noteq> 1" by (simp add: power2_eq_square)
  then have "\<not> is_orthogonal 1 [[scale_draw d]]" by (simp only: is_orthogonal_1 not_False_eq_True)
  with random_rotation_1 [of d theta] show ?thesis by blast
qed

text \<open>
  Claim C9, amended. For \<open>n = 2\<close> and every angle, when the factor \<open>Q\<close> of the QR
  decomposition is an orthogonal 2 by 2 matrix, the function returns the orthogonal
  matrix \<open>Q rot Q\<^sup>T\<close>, where \<open>rot\<close> is the rotation by the angle; it is the rotation by
  the angle or by its negative. For \<open>n = 1\<close> it returns the 1 by 1 matrix of the
  uniform draw.
\<close>

theorem random_rotation_2_orthogonal:
  assumes "is_orthogonal 2 (qr_factor d)"
  shows "(\<exists>R. random_rotation d 2 theta = Inr R
        \<and> R = dot 2 (dot 2 (qr_factor d) (rotation2 (rotation_angle d theta)))
                (mat_T 2 (qr_factor d))
        \<and> is_orthogonal 2 R
        \<and> (R = rotation2 (rotation_angle d theta) \<or> R = rotation2 (- rotation_angle d theta)))
    \<and> random_rotation d 1 theta = Inr [[scale_draw d]]"
proof (intro conjI)
  let ?th = "rotation_angle d theta"
  let ?R = "dot 2 (dot 2 (qr_factor d) (rotation2 ?th)) (mat_T 2 (qr_factor d))"
  from assms have sq: "is_square 2 (qr_factor d)" by (simp add: is_orthogonal_def)
  then obtain a b c e where q: "qr_factor d = [[a, b], [c, e]]"
    by (rule is_square2D)
  from assms have o: "a * a + b * b = 1" "a * c + b * e = 0" "c * c + e * e = 1"
    by (simp_all add: q is_orthogonal_2)
  let ?det = "a * e - b * c"
  have R: "?R = [[cos ?th, - (?det * sin ?th)], [?det * sin ?th, cos ?th]]"
    unfolding q rotation2_def by (rule rotated_2 [OF o])
  have det: "?det * ?det = 1" using o by (rule det_sq_2)
  have cs: "cos ?th * cos ?th + sin ?th * sin ?th = 1"
    using sin_cos_squared_add2 [of ?th] by (simp add: power2_eq_square)
  have orth: "is_orthogonal 2 ?R"
  proof -
    have "cos ?th * cos ?th + ?det * sin ?th * (?det * sin ?th) = 1"
      using det cs by algebra
    then show ?thesis by (simp add: R is_orthogonal_2 algebra_simps)
  qed
  from det have "?det = 1 \<or> ?det = - 1" by (rule unit_cases)
  then have rot: "?R = rotation2 ?th \<or> ?R = rotation2 (- ?th)"
  proof
    assume "?det = 1"
    then have "?R = rotation2 ?th" by (subst R) (simp add: rotation2_def)
    then show ?thesis ..
  next
    assume "?det = - 1"
    then have "?R = rotation2 (- ?th)" by (subst R) (simp add: rotation2_def)
    then show ?thesis ..
  qed
  from orth rot show "\<exists>R. random_rotation d 2 theta = Inr R
        \<and> R = ?R \<and> is_orthogonal 2 R \<and> (R = rotation2 ?th \<or> R = rotation2 (- ?th))"
    by (simp add: random_rotation_2 [OF sq])
  show "random_rotation d 1 theta = Inr [[scale_draw d]]"
    by (rule random_rotation_1)
qed

theorem random_rotation_2_orthogonal_witness:
  "random_rotation \<lparr>theta_draw = 0, scale_draw = 1/2, qr_factor = [[0, 1], [1, 0]]\<rparr> 2
       (Some (pi / 2)) = Inr [[0, 1], [- 1, 0]]
   \<and> is_orthogonal 2 [[0, 1], [- 1, 0]]
   \<and> random_rotation \<lparr>theta_draw = 0, scale_draw = 1/2, qr_factor = [[0, 1], [1, 0]]\<rparr> 1
       (Some (pi / 2)) = Inr [[1/2]]"
proof -
  let ?d = "\<lparr>theta_draw = 0, scale_draw = 1/2, qr_factor = [[0, 1], [1, 0]]\<rparr>"
  have h: "is_orthogonal 2 (qr_factor ?d)" by (simp add: is_orthogonal_2)
  have e: "dot 2 (dot 2 (qr_factor ?d) (rotation2 (rotation_angle ?d (Some (pi / 2)))))
      (mat_T 2 (qr_factor ?d)) = [[0, 1], [- 1, 0]]"
    by (simp add: rotation2_def rotation_angle_def dot2 mat_T2)
  from random_rotation_2_orthogonal [OF h, of "Some (pi / 2)"]
  obtain R where "random_rotation ?d 2 (Some (pi / 2)) = Inr R"
    and "R = dot 2 (dot 2 (qr_factor ?d) (rotation2 (rotation_angle ?d (Some (pi / 2)))))
                (mat_T 2 (qr_factor ?d))"
    and "is_orthogonal 2 R"
    and "random_rotation ?d 1 (Some (pi / 2)) = Inr [[scale_draw ?d]]"
    by (elim exE conjE) (rule that)
  with e show ?thesis by simp
qed

text \<open>
  For \<open>n \<ge> 3\<close> the block \<open>rot\<close> is set into a matrix of zeros, so the result has rank
  two: with the identity as \<open>Q\<close> and angle 0 it is the diagonal matrix \<open>(1, 1, 0)\<close>.
\<close>

lemma random_rotation_3_example:
  "random_rotation \<lparr>theta_draw = 0, scale_draw = 0, qr_factor = eye 3\<rparr> 3 (Some 0)
     = Inr [[1, 0, 0], [0, 1, 0], [0, 0, 0]]
   \<and> \<not> is_orthogonal 3 [[1, 0, 0], [0, 1, 0], [0, 0, 0]]"
  by (simp add: random_rotation_def rotation_angle_def rotation2_def set_block2_def zeros_sq_def
      is_orthogonal_def is_square_def dot_def mat_T_def eye_def upt3 Let_def eval_nat_numeral)

end
